theory Spec2Isabelle
  imports Main "HOL-Library.AList"
begin

section \<open>JavaScript values\<close>

text \<open>
  The repository is JavaScript. Its strings are modelled as \<open>string\<close> (ASCII text: one
  \<open>char\<close> per UTF-16 unit), its numbers as \<open>int\<close> (the integers among the doubles;
  where the code counts, \<open>to_number\<close> below rounds as a double does), and a thrown exception as a value
  \<open>Inl e\<close> of a sum type.  \<open>NotModelled\<close> is not an exception of the source: the
  embedding returns it where the source's behaviour depends on a part of JavaScript that
  is left out (a regular expression outside the interpreted fragment, a property whose
  value has not the type the code expects), so that no theorem speaks about such inputs.
\<close>

datatype js_error =
    TypeError
  | ReferenceError string
  | SyntaxError
  | NotModelled

datatype json =
    JNull
  | JBool bool
  | JNum int
  | JStr string
  | JArr "json list"
  | JObj "(string \<times> json) list"

text \<open>Truthiness of a value, and of a property that may be missing (\<open>undefined\<close>).\<close>

fun truthy :: "json \<Rightarrow> bool" where
  "truthy JNull = False"
| "truthy (JBool b) = b"
| "truthy (JNum n) = (n \<noteq> 0)"
| "truthy (JStr s) = (s \<noteq> [])"
| "truthy (JArr xs) = True"
| "truthy (JObj kvs) = True"

fun truthy_opt :: "json option \<Rightarrow> bool" where
  "truthy_opt None = False"
| "truthy_opt (Some v) = truthy v"

text \<open>
  \<open>v.k\<close> for one of the property names the code reads (\<open>id\<close>, \<open>path\<close>, \<open>file\<close>, \<open>raw\<close>,
  \<open>name\<close>, \<open>type\<close>, \<open>line\<close>, ...): the property of an object, \<open>undefined\<close> on a primitive
  or an array.  Reading a property of \<open>null\<close> throws; the callers below test for it.
\<close>

fun get_prop :: "json \<Rightarrow> string \<Rightarrow> json option" where
  "get_prop (JObj kvs) k = map_of kvs k"
| "get_prop v k = None"

subsection \<open>Strings\<close>

text \<open>Strings are lists of ASCII characters; \<open>toLowerCase\<close> folds \<open>A\<close> to \<open>Z\<close>.\<close>

definition lower_char :: "char \<Rightarrow> char" where
  "lower_char c =
     (let n = (of_char c :: nat) in if 65 \<le> n \<and> n \<le> 90 then char_of (n + 32) else c)"

definition toLowerCase :: "string \<Rightarrow> string" where
  "toLowerCase s = map lower_char s"

fun starts_with :: "string \<Rightarrow> string \<Rightarrow> bool" where
  "starts_with s [] = True"
| "starts_with [] (p # ps) = False"
| "starts_with (c # cs) (p # ps) = (c = p \<and> starts_with cs ps)"

text \<open>\<open>s.includes(p)\<close>\<close>

fun str_includes :: "string \<Rightarrow> string \<Rightarrow> bool" where
  "str_includes [] p = (p = [])"
| "str_includes (c # cs) p = (starts_with (c # cs) p \<or> str_includes cs p)"

text \<open>\<open>xs.join(sep)\<close>\<close>

fun join :: "string \<Rightarrow> string list \<Rightarrow> string" where
  "join sep [] = []"
| "join sep [x] = x"
| "join sep (x # y # ys) = x @ sep @ join sep (y # ys)"

text \<open>\<open>s.split('\n')\<close>: never empty, one more element than there are newlines.\<close>

fun split_lines :: "string \<Rightarrow> string list" where
  "split_lines [] = [[]]"
| "split_lines (c # cs) =
     (if c = CHR 0x0A then [] # split_lines cs
      else (case split_lines cs of l # ls \<Rightarrow> (c # l) # ls | [] \<Rightarrow> [[c]]))"

text \<open>\<open>xs.slice(a, b)\<close>, with JavaScript's treatment of negative and large indices.\<close>

definition js_slice :: "'a list \<Rightarrow> int \<Rightarrow> int \<Rightarrow> 'a list" where
  "js_slice xs a b =
     (let n = int (length xs);
          k = (if a < 0 then max (n + a) 0 else min a n);
          e = (if b < 0 then max (n + b) 0 else min b n)
      in take (nat (e - k)) (drop (nat k) xs))"

text \<open>Decimal digits of a number, as a template literal prints it.\<close>

definition digit_char :: "nat \<Rightarrow> char" where
  "digit_char d = char_of (48 + d)"

fun show_nat :: "nat \<Rightarrow> string" where
  "show_nat n = (if n < 10 then [digit_char n] else show_nat (n div 10) @ [digit_char (n mod 10)])"

declare show_nat.simps [simp del]

definition show_int :: "int \<Rightarrow> string" where
  "show_int i = (if i < 0 then CHR ''-'' # show_nat (nat (- i)) else show_nat (nat i))"


text \<open>
  \<open>s.replace(p, '')\<close> with a string pattern: the first occurrence of \<open>p\<close> is removed.
\<close>

fun remove_first :: "string \<Rightarrow> string \<Rightarrow> string" where
  "remove_first p [] = []"
| "remove_first p (c # cs) =
     (if starts_with (c # cs) p then drop (length p) (c # cs) else c # remove_first p cs)"

text \<open>
  Numbers are doubles.  The counters of the store hold integers, and an integer is a
  double when 53 bits hold its significand: every integer up to \<open>2 ^ 53\<close> in magnitude
  is, and above that \<open>to_number\<close> gives the nearest integer that is, a tie going to the
  even significand, which is how \<open>+\<close> and \<open>parseInt\<close> round.  \<open>dropped_bits m\<close> is the
  number of low bits of \<open>m\<close> that the significand cannot hold.  (\<open>Infinity\<close>, reached
  from \<open>2 ^ 1024\<close>, is not modelled; the digits that a template literal prints are
  modelled up to \<open>2 ^ 53\<close>, where they are the decimal digits of the integer.)
\<close>

function dropped_bits :: "int \<Rightarrow> nat" where
  "dropped_bits m = (if m < 9007199254740992 then 0 else Suc (dropped_bits (m div 2)))"
  by pat_completeness auto

termination dropped_bits
  by (relation "measure nat") auto

declare dropped_bits.simps [simp del]

definition round_significand :: "int \<Rightarrow> int" where
  "round_significand m =
     (let u = 2 ^ dropped_bits m; q = m div u; r = m mod u
      in if u < 2 * r \<or> (2 * r = u \<and> odd q) then (q + 1) * u else q * u)"

definition to_number :: "int \<Rightarrow> int" where
  "to_number v = (if v < 0 then - round_significand (- v) else round_significand v)"

text \<open>
  \<open>parseInt(s)\<close> without a radix: leading white space, a sign, \<open>0x\<close> for base 16, then
  the longest prefix of digits, whose value is rounded to a number; \<open>None\<close> is \<open>NaN\<close>.
\<close>

definition is_space :: "char \<Rightarrow> bool" where
  "is_space c = (let n = (of_char c :: nat) in (9 \<le> n \<and> n \<le> 13) \<or> n = 32)"

definition digit_val :: "char \<Rightarrow> nat option" where
  "digit_val c =
     (let n = (of_char c :: nat) in
      if 48 \<le> n \<and> n \<le> 57 then Some (n - 48)
      else if 97 \<le> n \<and> n \<le> 122 then Some (n - 87)
      else if 65 \<le> n \<and> n \<le> 90 then Some (n - 55)
      else None)"

definition is_digit :: "nat \<Rightarrow> char \<Rightarrow> bool" where
  "is_digit radix c = (case digit_val c of Some d \<Rightarrow> d < radix | None \<Rightarrow> False)"

definition digits_value :: "nat \<Rightarrow> string \<Rightarrow> nat" where
  "digits_value radix ds = foldl (\<lambda>acc c. acc * radix + the (digit_val c)) 0 ds"

definition parseInt :: "string \<Rightarrow> int option" where
  "parseInt s =
     (let s1 = dropWhile is_space s;
          neg = starts_with s1 ''-'';
          s2 = (if starts_with s1 ''-'' \<or> starts_with s1 ''+'' then tl s1 else s1);
          hex = (starts_with s2 ''0x'' \<or> starts_with s2 ''0X'');
          radix = (if hex then 16 else 10);
          s3 = (if hex then drop 2 s2 else s2);
          ds = takeWhile (is_digit radix) s3
      in if ds = [] then None
         else Some (to_number ((if neg then - 1 else 1) * int (digits_value radix ds))))"

section \<open>The entity graph store (\<open>src/graph/knowledgeGraph.js\<close>)\<close>

record node =
  node_id :: string
  node_type :: string
  node_data :: json
  node_timestamp :: string

record edge =
  edge_id :: string
  edge_source :: string
  edge_target :: string
  relationship :: string
  metadata :: json
  edge_timestamp :: string

text \<open>
  \<open>this.edges\<close> holds two kinds of values: under an edge id the edge object, under a
  source node id the array of the edges leaving that node.
\<close>

datatype edge_entry = EdgeObj edge | EdgeArr "edge list"

text \<open>
  A JavaScript \<open>Map\<close> iterates in insertion order, and \<open>set\<close> on a present key keeps the
  key's position: an association list with \<open>AList.update\<close> for \<open>set\<close>, \<open>map_of\<close> for
  \<open>get\<close>.
\<close>

record graph =
  nodes :: "(string \<times> node) list"
  edges :: "(string \<times> edge_entry) list"
  repositories :: "(string \<times> string) list"
  nodeIdCounter :: int
  edgeIdCounter :: int

definition empty_graph :: graph where
  "empty_graph = \<lparr>nodes = [], edges = [], repositories = [], nodeIdCounter = 0, edgeIdCounter = 0\<rparr>"

definition map_has :: "('k \<times> 'v) list \<Rightarrow> 'k \<Rightarrow> bool" where
  "map_has m k = (map_of m k \<noteq> None)"

definition node_id_of :: "int \<Rightarrow> string" where
  "node_id_of n = ''node_'' @ show_int n"

definition edge_id_of :: "int \<Rightarrow> string" where
  "edge_id_of n = ''edge_'' @ show_int n"

definition generateNodeId :: "graph \<Rightarrow> graph \<times> string" where
  "generateNodeId g =
     (let c = to_number (nodeIdCounter g + 1) in (g\<lparr>nodeIdCounter := c\<rparr>, node_id_of c))"

definition generateEdgeId :: "graph \<Rightarrow> graph \<times> string" where
  "generateEdgeId g =
     (let c = to_number (edgeIdCounter g + 1) in (g\<lparr>edgeIdCounter := c\<rparr>, edge_id_of c))"

text \<open>
  \<open>addNode(type, data)\<close>; \<open>now\<close> is the clock's \<open>toISOString()\<close>.  \<open>data.id\<close> throws
  on \<open>null\<close>; a truthy \<open>data.id\<close> is the key (a string here).
\<close>

definition addNode :: "graph \<Rightarrow> string \<Rightarrow> json \<Rightarrow> string \<Rightarrow> js_error + (graph \<times> string)" where
  "addNode g ty d now =
     (if d = JNull then Inl TypeError
      else if truthy_opt (get_prop d ''id'') then
        (case get_prop d ''id'' of
           Some (JStr i) \<Rightarrow>
             Inr (g\<lparr>nodes := AList.update i
                    \<lparr>node_id = i, node_type = ty, node_data = d, node_timestamp = now\<rparr> (nodes g)\<rparr>, i)
         | _ \<Rightarrow> Inl NotModelled)
      else
        (let (g1, i) = generateNodeId g in
         Inr (g1\<lparr>nodes := AList.update i
                \<lparr>node_id = i, node_type = ty, node_data = d, node_timestamp = now\<rparr> (nodes g1)\<rparr>, i)))"

text \<open>
  \<open>addEdge(sourceId, targetId, relationship, metadata)\<close>.  The edge is stored under
  its id, then pushed on the array stored under \<open>sourceId\<close>; when that key holds an
  edge object (a source id that is itself an edge id), \<open>push\<close> is not a function.  The
  graph is returned in both cases: the exception leaves the first store in place.
\<close>

definition addEdge ::
  "graph \<Rightarrow> string \<Rightarrow> string \<Rightarrow> string \<Rightarrow> json \<Rightarrow> string \<Rightarrow> graph \<times> (js_error + string)" where
  "addEdge g sourceId targetId rel meta now =
     (let (g1, i) = generateEdgeId g;
          e = \<lparr>edge_id = i, edge_source = sourceId, edge_target = targetId,
               relationship = rel, metadata = meta, edge_timestamp = now\<rparr>;
          es1 = AList.update i (EdgeObj e) (edges g1);
          es2 = (if map_has es1 sourceId then es1 else AList.update sourceId (EdgeArr []) es1)
      in case map_of es2 sourceId of
           Some (EdgeArr outgoing) \<Rightarrow>
             (g1\<lparr>edges := AList.update sourceId (EdgeArr (outgoing @ [e])) es2\<rparr>, Inr i)
         | _ \<Rightarrow> (g1\<lparr>edges := es2\<rparr>, Inl TypeError))"

definition findNodesByType :: "graph \<Rightarrow> string \<Rightarrow> node list" where
  "findNodesByType g ty = filter (\<lambda>n. node_type n = ty) (map snd (nodes g))"

text \<open>
  \<open>findNodesByProperty(property, value, type)\<close> for a string \<open>value\<close>; \<open>ty = None\<close> is the
  default \<open>null\<close>, and an empty type string is falsy as well.
\<close>

definition findNodesByProperty :: "graph \<Rightarrow> string \<Rightarrow> string \<Rightarrow> string option \<Rightarrow> node list" where
  "findNodesByProperty g property v ty =
     filter (\<lambda>n. (case ty of None \<Rightarrow> True | Some t \<Rightarrow> t = [] \<or> node_type n = t)
                \<and> truthy (node_data n) \<and> get_prop (node_data n) property = Some (JStr v))
            (map snd (nodes g))"

text \<open>The edge objects of \<open>this.edges\<close>, in iteration order (arrays are skipped).\<close>

fun edge_objects :: "(string \<times> edge_entry) list \<Rightarrow> edge list" where
  "edge_objects [] = []"
| "edge_objects ((k, EdgeObj e) # es) = e # edge_objects es"
| "edge_objects ((k, EdgeArr xs) # es) = edge_objects es"

definition getNodeConnections :: "graph \<Rightarrow> string \<Rightarrow> string option \<Rightarrow> edge list" where
  "getNodeConnections g nodeId rel =
     filter (\<lambda>e. (edge_source e = nodeId \<or> edge_target e = nodeId)
                \<and> (case rel of None \<Rightarrow> True | Some r \<Rightarrow> r = [] \<or> relationship e = r))
            (edge_objects (edges g))"

definition getNodeCount :: "graph \<Rightarrow> nat" where
  "getNodeCount g = length (nodes g)"

definition getEdgeCount :: "graph \<Rightarrow> nat" where
  "getEdgeCount g = length (edge_objects (edges g))"

definition clear :: "graph \<Rightarrow> graph" where
  "clear g = g\<lparr>nodes := [], edges := [], repositories := [], nodeIdCounter := 0, edgeIdCounter := 0\<rparr>"

text \<open>
  \<open>traverseGraph(startNodeId, maxDepth, visited)\<close>.  The set \<open>visited\<close> is mutated by
  the recursive calls, so it is threaded through and returned; \<open>traverse_edges\<close> is the
  \<open>for (const edge of connections)\<close> loop.  The depth is a JavaScript number: a negative
  one never reaches \<open>0\<close>, and the recursion then stops on \<open>visited\<close> alone.
\<close>

function traverseGraph :: "graph \<Rightarrow> string \<Rightarrow> int \<Rightarrow> string set \<Rightarrow> node list \<times> string set"
  and traverse_edges :: "graph \<Rightarrow> string \<Rightarrow> int \<Rightarrow> edge list \<Rightarrow> string set \<Rightarrow> node list \<times> string set"
where
  "traverseGraph g startNodeId maxDepth visited =
     (if startNodeId \<in> visited \<or> maxDepth = 0 then ([], visited)
      else
        (case map_of (nodes g) startNodeId of
           None \<Rightarrow> ([], insert startNodeId visited)
         | Some n \<Rightarrow>
             (let (sub, visited') =
                    traverse_edges g startNodeId maxDepth (getNodeConnections g startNodeId None)
                      (insert startNodeId visited)
              in (n # sub, visited'))))"
| "traverse_edges g startNodeId maxDepth [] visited = ([], visited)"
| "traverse_edges g startNodeId maxDepth (e # rest) visited =
     (let nextNodeId = (if edge_source e = startNodeId then edge_target e else edge_source e);
          (subResults, visited') = traverseGraph g nextNodeId (maxDepth - 1) visited;
          (more, visited'') = traverse_edges g startNodeId maxDepth rest visited'
      in (subResults @ more, visited''))"
  by pat_completeness auto

text \<open>
  Termination: every call that passes the guard marks a node id that occurs in an edge and
  was not yet visited; the ids occurring in edges are finitely many.
\<close>

definition endpoints :: "graph \<Rightarrow> string set" where
  "endpoints g =
     edge_source ` set (edge_objects (edges g)) \<union> edge_target ` set (edge_objects (edges g))"

lemma finite_endpoints: "finite (endpoints g)"
  by (simp add: endpoints_def)

lemma connections_endpoint: "getNodeConnections g s r \<noteq> [] \<Longrightarrow> s \<in> endpoints g"
  unfolding getNodeConnections_def endpoints_def
  by (auto simp: filter_empty_conv)

lemma visited_mono_dom:
  "traverseGraph_traverse_edges_dom (Inl (g, s, d, V)) \<Longrightarrow> V \<subseteq> snd (traverseGraph g s d V)"
  "traverseGraph_traverse_edges_dom (Inr (g, s, d, es, V)) \<Longrightarrow> V \<subseteq> snd (traverse_edges g s d es V)"
proof (induct rule: traverseGraph_traverse_edges.pinduct)
  case (1 g startNodeId maxDepth visited)
  then show ?case
    by (auto simp: traverseGraph.psimps split: option.splits prod.splits)
next
  case (2 g startNodeId maxDepth visited)
  then show ?case by (simp add: traverse_edges.psimps)
next
  case (3 g startNodeId maxDepth e rest visited)
  then show ?case
    by (auto simp: traverse_edges.psimps Let_def split: prod.splits) (metis subsetD)+
qed

lemma traverse_total: "All traverseGraph_traverse_edges_dom"
proof (relation "inv_image (less_than <*lex*> less_than)
    (\<lambda>x. case x of
       Inl (g, s, d, V) \<Rightarrow> (card (endpoints g - V), 1)
     | Inr (g, s, d, es, V) \<Rightarrow> (card (endpoints g - V), 2 * length es))", goal_cases)
  case 1
  show ?case by (intro wf_inv_image wf_lex_prod wf_less_than)
next
  case (2 g s d V n)
  show ?case
  proof (cases "getNodeConnections g s None = []")
    case True
    have "card (endpoints g - insert s V) \<le> card (endpoints g - V)"
      by (rule card_mono) (auto simp: finite_endpoints)
    with True show ?thesis by auto
  next
    case False
    then have "s \<in> endpoints g" by (rule connections_endpoint)
    moreover from 2 have "s \<notin> V" by simp
    ultimately have "card (endpoints g - insert s V) < card (endpoints g - V)"
      by (intro psubset_card_mono) (auto simp: finite_endpoints)
    then show ?thesis by simp
  qed
next
  case (3 g s d e rest V)
  show ?case by simp
next
  case (4 g s d e rest V x xa xb y)
  then have "V \<subseteq> y"
    using visited_mono_dom(1)[of g x "d - 1" V] by (metis snd_conv)
  then have "card (endpoints g - y) \<le> card (endpoints g - V)"
    by (intro card_mono) (auto simp: finite_endpoints)
  then show ?case by auto
qed

termination traverseGraph
  by (rule traverse_total)

declare traverseGraph.simps [simp del] traverse_edges.simps [simp del]

text \<open>
  \<open>export()\<close>: the nodes as \<open>{ id, ...node }\<close> (the spread of \<open>node\<close> overwrites the key
  \<open>id\<close> with \<open>node.id\<close>), the edge objects, the repository entries and the counts.
\<close>

record snapshot =
  snap_nodes :: "node list"
  snap_edges :: "edge list"
  snap_repositories :: "(string \<times> string) list"
  snap_nodeCount :: nat
  snap_edgeCount :: nat
  snap_repositoryCount :: nat
  snap_timestamp :: string

definition spread_node :: "string \<Rightarrow> node \<Rightarrow> node" where
  "spread_node i n =
     \<lparr>node_id = i, node_type = node_type n, node_data = node_data n,
      node_timestamp = node_timestamp n\<rparr>\<lparr>node_id := node_id n\<rparr>"

definition export_graph :: "graph \<Rightarrow> string \<Rightarrow> snapshot" where
  "export_graph g now =
     \<lparr>snap_nodes = map (\<lambda>(i, n). spread_node i n) (nodes g),
      snap_edges = edge_objects (edges g),
      snap_repositories = repositories g,
      snap_nodeCount = length (nodes g),
      snap_edgeCount = getEdgeCount g,
      snap_repositoryCount = length (repositories g),
      snap_timestamp = now\<rparr>"

text \<open>
  \<open>import(data)\<close>: \<open>clear()\<close>, then every node and edge is stored under its own id and
  the counters are raised to \<open>parseInt(id.replace('node_', '')) || 0\<close>.
\<close>

definition or_zero :: "int option \<Rightarrow> int" where
  "or_zero v = (case v of None \<Rightarrow> 0 | Some n \<Rightarrow> n)"

definition import_node :: "node \<Rightarrow> graph \<Rightarrow> graph" where
  "import_node n g =
     g\<lparr>nodes := AList.update (node_id n) n (nodes g),
       nodeIdCounter := max (nodeIdCounter g) (or_zero (parseInt (remove_first ''node_'' (node_id n))))\<rparr>"

definition import_edge :: "edge \<Rightarrow> graph \<Rightarrow> graph" where
  "import_edge e g =
     g\<lparr>edges := AList.update (edge_id e) (EdgeObj e) (edges g),
       edgeIdCounter := max (edgeIdCounter g) (or_zero (parseInt (remove_first ''edge_'' (edge_id e))))\<rparr>"

definition import_repository :: "string \<times> string \<Rightarrow> graph \<Rightarrow> graph" where
  "import_repository r g = g\<lparr>repositories := AList.update (fst r) (snd r) (repositories g)\<rparr>"

definition import_graph :: "graph \<Rightarrow> snapshot \<Rightarrow> graph" where
  "import_graph g d =
     fold import_repository (snap_repositories d)
       (fold import_edge (snap_edges d)
         (fold import_node (snap_nodes d) (clear g)))"

text \<open>
  What every state of the store satisfies: a \<open>Map\<close> has each key once, a node is stored
  under its own id and an edge object under its own id.
\<close>

definition nodes_keyed :: "graph \<Rightarrow> bool" where
  "nodes_keyed g = (\<forall>k n. (k, n) \<in> set (nodes g) \<longrightarrow> node_id n = k)"

definition edges_keyed :: "graph \<Rightarrow> bool" where
  "edges_keyed g = (\<forall>k e. (k, EdgeObj e) \<in> set (edges g) \<longrightarrow> edge_id e = k)"

definition graph_ok :: "graph \<Rightarrow> bool" where
  "graph_ok g =
     (distinct (map fst (nodes g)) \<and> distinct (map fst (edges g))
      \<and> distinct (map fst (repositories g)) \<and> nodes_keyed g \<and> edges_keyed g)"

subsection \<open>\<open>JSON.stringify\<close>\<close>

text \<open>
  Strings are quoted with the escapes of \<open>QuoteJSONString\<close>: the quote, the backslash
  and the control characters; objects and arrays are printed without white space, in
  property order.
\<close>

definition hex_digit :: "nat \<Rightarrow> char" where
  "hex_digit d = (if d < 10 then char_of (48 + d) else char_of (87 + d))"

definition escape_char :: "char \<Rightarrow> string" where
  "escape_char c =
     (let n = (of_char c :: nat) in
      if n = 34 then [CHR 0x5C, CHR 0x22]
      else if n = 92 then [CHR 0x5C, CHR 0x5C]
      else if n = 8 then [CHR 0x5C, CHR ''b'']
      else if n = 9 then [CHR 0x5C, CHR ''t'']
      else if n = 10 then [CHR 0x5C, CHR ''n'']
      else if n = 12 then [CHR 0x5C, CHR ''f'']
      else if n = 13 then [CHR 0x5C, CHR ''r'']
      else if n < 32 then [CHR 0x5C, CHR ''u'', CHR ''0'', CHR ''0'', hex_digit (n div 16), hex_digit (n mod 16)]
      else [c])"

definition quote :: "string \<Rightarrow> string" where
  "quote s = CHR 0x22 # concat (map escape_char s) @ [CHR 0x22]"

fun stringify :: "json \<Rightarrow> string" where
  "stringify JNull = ''null''"
| "stringify (JBool b) = (if b then ''true'' else ''false'')"
| "stringify (JNum n) = show_int n"
| "stringify (JStr s) = quote s"
| "stringify (JArr xs) = ''['' @ join '','' (map stringify xs) @ '']''"
| "stringify (JObj kvs) =
     ''{'' @ join '','' (map (\<lambda>kv. quote (fst kv) @ '':'' @ stringify (snd kv)) kvs) @ ''}''"

text \<open>\<open>JSON.stringify(node)\<close>: the four properties of a node, in the order \<open>addNode\<close> writes them.\<close>

definition node_json :: "node \<Rightarrow> json" where
  "node_json n =
     JObj [(''id'', JStr (node_id n)), (''type'', JStr (node_type n)),
           (''data'', node_data n), (''timestamp'', JStr (node_timestamp n))]"

subsection \<open>The regular expression of \<open>searchNodes\<close>\<close>

text \<open>
  \<open>searchNodes\<close> builds \<open>new RegExp(`\\b${queryLower}\\b`, 'g')\<close> from the query
  text as it is.  The embedding interprets the fragment of patterns that are a sequence
  of one-character atoms: a character that is not a syntax character of the pattern
  language stands for itself and \<open>.\<close> for any character but a line terminator.  It
  knows one class of patterns the constructor rejects with a \<open>SyntaxError\<close>: no
  backslash and no \<open>[\<close> in the query (so every parenthesis opens or closes a group)
  and the parentheses do not balance.  Every other pattern is \<open>NotModelled\<close>.
\<close>

datatype rx_atom = Lit char | AnyChar

definition syntax_char :: "char \<Rightarrow> bool" where
  "syntax_char c = (c \<in> set ''^$.*+?()[]{}|'' \<or> c = CHR 0x5C)"

fun parens_balanced :: "nat \<Rightarrow> string \<Rightarrow> bool" where
  "parens_balanced d [] = (d = 0)"
| "parens_balanced d (c # cs) =
     (if c = CHR ''('' then parens_balanced (Suc d) cs
      else if c = CHR '')'' then (0 < d \<and> parens_balanced (d - 1) cs)
      else parens_balanced d cs)"

definition compile_query :: "string \<Rightarrow> js_error + rx_atom list" where
  "compile_query q =
     (if \<forall>c \<in> set q. \<not> syntax_char c \<or> c = CHR ''.''
      then Inr (map (\<lambda>c. if c = CHR ''.'' then AnyChar else Lit c) q)
      else if CHR 0x5C \<notin> set q \<and> CHR ''['' \<notin> set q \<and> \<not> parens_balanced 0 q
      then Inl SyntaxError
      else Inl NotModelled)"

text \<open>\<open>\w\<close> is \<open>[A-Za-z0-9_]\<close>; \<open>\b\<close> holds between a word character and none.\<close>

definition is_word_char :: "char \<Rightarrow> bool" where
  "is_word_char c =
     (let n = (of_char c :: nat) in
      (48 \<le> n \<and> n \<le> 57) \<or> (65 \<le> n \<and> n \<le> 90) \<or> (97 \<le> n \<and> n \<le> 122) \<or> n = 95)"

definition word_at :: "string \<Rightarrow> int \<Rightarrow> bool" where
  "word_at s i = (0 \<le> i \<and> i < int (length s) \<and> is_word_char (s ! nat i))"

definition at_boundary :: "string \<Rightarrow> nat \<Rightarrow> bool" where
  "at_boundary s i = (word_at s (int i - 1) \<noteq> word_at s (int i))"

fun atom_matches :: "rx_atom \<Rightarrow> char \<Rightarrow> bool" where
  "atom_matches (Lit a) c = (a = c)"
| "atom_matches AnyChar c = (c \<noteq> CHR 0x0A \<and> c \<noteq> CHR 0x0D)"

fun atoms_match :: "rx_atom list \<Rightarrow> string \<Rightarrow> bool" where
  "atoms_match [] s = True"
| "atoms_match (a # as) [] = False"
| "atoms_match (a # as) (c # cs) = (atom_matches a c \<and> atoms_match as cs)"

text \<open>The pattern \<open>\b\<close> atoms \<open>\b\<close> matches at index \<open>i\<close>.\<close>

definition match_at :: "rx_atom list \<Rightarrow> string \<Rightarrow> nat \<Rightarrow> bool" where
  "match_at atoms s i =
     (at_boundary s i \<and> atoms_match atoms (drop i s) \<and> at_boundary s (i + length atoms))"

text \<open>
  \<open>s.match(re)\<close> with the \<open>g\<close> flag: the matches are searched from left to right, each
  search starting where the last match ended (one further after an empty match); the
  result's length is their number, \<open>null || []\<close> giving \<open>0\<close>.
\<close>

function count_matches :: "rx_atom list \<Rightarrow> string \<Rightarrow> nat \<Rightarrow> nat" where
  "count_matches atoms s i =
     (if length s < i then 0
      else if match_at atoms s i then Suc (count_matches atoms s (i + max 1 (length atoms)))
      else count_matches atoms s (Suc i))"
  by pat_completeness auto
termination
  by (relation "measure (\<lambda>(atoms, s, i). Suc (length s) - i)") auto

declare count_matches.simps [simp del]

definition exact_matches :: "string \<Rightarrow> string \<Rightarrow> js_error + nat" where
  "exact_matches queryLower dataStr =
     (case compile_query queryLower of
        Inl e \<Rightarrow> Inl e
      | Inr atoms \<Rightarrow> Inr (count_matches atoms dataStr 0))"

subsection \<open>\<open>searchNodes\<close>\<close>

record scored =
  scored_node :: node
  relevance :: int

text \<open>The body of the loop over \<open>this.nodes\<close>: the relevance of one node.\<close>

definition node_relevance :: "string \<Rightarrow> node \<Rightarrow> js_error + int" where
  "node_relevance queryLower n =
     (let r = (if str_includes (node_type n) queryLower then 2 else 0) in
      if truthy (node_data n) then
        (let dataStr = toLowerCase (stringify (node_data n)) in
         if str_includes dataStr queryLower then
           (case exact_matches queryLower dataStr of
              Inl e \<Rightarrow> Inl e
            | Inr exactMatches \<Rightarrow> Inr (r + 1 + int exactMatches * 3))
         else Inr r)
      else Inr r)"

fun score_nodes :: "string \<Rightarrow> node list \<Rightarrow> js_error + scored list" where
  "score_nodes queryLower [] = Inr []"
| "score_nodes queryLower (n # ns) =
     (case node_relevance queryLower n of
        Inl e \<Rightarrow> Inl e
      | Inr r \<Rightarrow>
          (case score_nodes queryLower ns of
             Inl e \<Rightarrow> Inl e
           | Inr results \<Rightarrow>
               Inr (if 0 < r then \<lparr>scored_node = n, relevance = r\<rparr> # results else results)))"

text \<open>
  \<open>results.sort((a, b) => b.relevance - a.relevance)\<close>: \<open>Array.prototype.sort\<close> is
  stable, and so is \<open>sort_key\<close>.
\<close>

definition searchNodes :: "graph \<Rightarrow> string \<Rightarrow> js_error + node list" where
  "searchNodes g query =
     (case score_nodes (toLowerCase query) (map snd (nodes g)) of
        Inl e \<Rightarrow> Inl e
      | Inr results \<Rightarrow> Inr (map scored_node (sort_key (\<lambda>r. - relevance r) results)))"

section \<open>The relevance ranker and the section merge of the query engine\<close>

text \<open>\<open>QueryEngine.calculateRelevance(node, keywords)\<close>\<close>

record keyword =
  original :: string
  stemmed :: string

definition keyword_relevance :: "node \<Rightarrow> string \<Rightarrow> keyword \<Rightarrow> js_error + int" where
  "keyword_relevance n nodeStr kw =
     (let r = (if str_includes nodeStr (original kw) then 2 else 0)
            + (if str_includes nodeStr (stemmed kw) then 1 else 0)
      in if truthy (node_data n) \<and> truthy_opt (get_prop (node_data n) ''name'') then
           (case get_prop (node_data n) ''name'' of
              Some (JStr nm) \<Rightarrow>
                (let name = toLowerCase nm in
                 Inr (r + (if name = original kw then 5
                           else if str_includes name (original kw) then 3 else 0)))
            | _ \<Rightarrow> Inl TypeError)
         else Inr r)"

fun relevance_loop :: "node \<Rightarrow> string \<Rightarrow> keyword list \<Rightarrow> int \<Rightarrow> js_error + int" where
  "relevance_loop n nodeStr [] acc = Inr acc"
| "relevance_loop n nodeStr (kw # kws) acc =
     (case keyword_relevance n nodeStr kw of
        Inl e \<Rightarrow> Inl e
      | Inr r \<Rightarrow> relevance_loop n nodeStr kws (acc + r))"

definition calculateRelevance :: "node \<Rightarrow> keyword list \<Rightarrow> js_error + int" where
  "calculateRelevance n keywords =
     relevance_loop n (toLowerCase (stringify (node_json n))) keywords 0"

text \<open>
  Line ranges \<open>{ start, end }\<close>; the sections of \<open>extractRelevantCodeSection\<close> carry
  a \<open>matchLine\<close> as well.  Both merges run the same loop, which extends the last
  merged range \<open>lastR\<close> in place or appends the current one; they differ in the slack.
\<close>

record line_range =
  range_start :: int
  range_end :: int

record code_section = line_range +
  matchLine :: int

fun merge_loop :: "int \<Rightarrow> 'a line_range_scheme \<Rightarrow> 'a line_range_scheme list \<Rightarrow> 'a line_range_scheme list" where
  "merge_loop slack lastR [] = [lastR]"
| "merge_loop slack lastR (current # rest) =
     (if range_start current \<le> range_end lastR + slack
      then merge_loop slack (lastR\<lparr>range_end := max (range_end lastR) (range_end current)\<rparr>) rest
      else lastR # merge_loop slack current rest)"

text \<open>\<open>QueryEngine.mergeSections(sections)\<close>: sorts by \<open>start\<close>, slack 5.\<close>

definition mergeSections :: "code_section list \<Rightarrow> code_section list" where
  "mergeSections sections =
     (case sort_key range_start sections of
        [] \<Rightarrow> []
      | first # rest \<Rightarrow> merge_loop 5 first rest)"

section \<open>The context builder (\<open>LLMIntegration\<close>)\<close>

text \<open>\<open>LLMIntegration.mergeRanges(ranges)\<close>: no sort (the caller sorts), slack 1.\<close>

definition mergeRanges :: "line_range list \<Rightarrow> line_range list" where
  "mergeRanges ranges =
     (case ranges of
        [] \<Rightarrow> []
      | first # rest \<Rightarrow> merge_loop 1 first rest)"

text \<open>
  \<open>findFunctionEnd(lines, startLine)\<close>.  \<open>scan_braces\<close> is the inner loop over the
  characters of one line; \<open>None\<close> means that it returned \<open>i + 1\<close>.  After the
  characters of line \<open>i\<close> the method evaluates \<open>fileData.type\<close>, and \<open>fileData\<close> is not
  a variable of this method (it is a parameter of \<open>extractRelevantSections\<close>): the
  first iteration of the loop over the lines either returns or throws a
  \<open>ReferenceError\<close>, so the loop has no second iteration.  A negative \<open>startLine\<close>
  reads \<open>lines[startLine] = undefined\<close>, which is not iterable.
\<close>

fun scan_braces :: "string \<Rightarrow> int \<Rightarrow> bool \<Rightarrow> (int \<times> bool) option" where
  "scan_braces [] braceCount inFunction = Some (braceCount, inFunction)"
| "scan_braces (c # cs) braceCount inFunction =
     (if c = CHR ''{'' then scan_braces cs (braceCount + 1) True
      else if c = CHR ''}'' then
        (if inFunction \<and> braceCount - 1 = 0 then None
         else scan_braces cs (braceCount - 1) inFunction)
      else scan_braces cs braceCount inFunction)"

definition findFunctionEnd :: "string list \<Rightarrow> int \<Rightarrow> js_error + int" where
  "findFunctionEnd lines startLine =
     (if startLine < int (length lines) then
        (if startLine < 0 then Inl TypeError
         else
           (case scan_braces (lines ! nat startLine) 0 False of
              None \<Rightarrow> Inr (startLine + 1)
            | Some st \<Rightarrow> Inl (ReferenceError ''fileData'')))
      else Inr (min (startLine + 50) (int (length lines))))"

definition findClassEnd :: "string list \<Rightarrow> int \<Rightarrow> js_error + int" where
  "findClassEnd lines startLine = findFunctionEnd lines startLine"

text \<open>
  The two \<open>forEach\<close> loops of \<open>extractRelevantSections\<close> over \<open>fileData.functions\<close> and
  \<open>fileData.classes\<close>: each entry's range is stored in a \<open>Map\<close> under the entry's
  name.  An entry is an object with a number \<open>line\<close> and a string \<open>name\<close> (or none);
  \<open>null.line\<close> throws.
\<close>

fun boundaries ::
  "string list \<Rightarrow> json list \<Rightarrow> (json option \<times> line_range) list \<Rightarrow> js_error + (json option \<times> line_range) list" where
  "boundaries lines [] m = Inr m"
| "boundaries lines (f # fs) m =
     (if f = JNull then Inl TypeError
      else
        (case (get_prop f ''line'', get_prop f ''name'') of
           (Some (JNum line), Some (JStr name)) \<Rightarrow>
             (case findFunctionEnd lines (line - 1) of
                Inl e \<Rightarrow> Inl e
              | Inr endLine \<Rightarrow>
                  boundaries lines fs
                    (AList.update (Some (JStr name)) \<lparr>range_start = line - 1, range_end = endLine\<rparr> m))
         | (Some (JNum line), None) \<Rightarrow>
             (case findFunctionEnd lines (line - 1) of
                Inl e \<Rightarrow> Inl e
              | Inr endLine \<Rightarrow>
                  boundaries lines fs
                    (AList.update None \<lparr>range_start = line - 1, range_end = endLine\<rparr> m))
         | _ \<Rightarrow> Inl NotModelled))"

text \<open>
  \<open>if (fileData.functions) fileData.functions.forEach(...)\<close>: a missing or falsy
  property is skipped, an array is walked, and any other truthy value has no \<open>forEach\<close>.
\<close>

definition each_boundary :: "string list \<Rightarrow> json option \<Rightarrow> js_error + (json option \<times> line_range) list" where
  "each_boundary lines entries =
     (if truthy_opt entries then
        (case entries of
           Some (JArr fs) \<Rightarrow> boundaries lines fs []
         | _ \<Rightarrow> Inl TypeError)
      else Inr [])"

text \<open>
  The budget loop: a section is appended whole or not at all, and the loop stops at the
  first section that would pass \<open>maxLength\<close> once something has been appended.
\<close>

fun take_sections :: "int \<Rightarrow> string list \<Rightarrow> string list \<Rightarrow> int \<Rightarrow> string list" where
  "take_sections maxLength [] contentParts currentLength = contentParts"
| "take_sections maxLength (sec # secs) contentParts currentLength =
     (if maxLength < currentLength + int (length sec) \<and> contentParts \<noteq> [] then contentParts
      else take_sections maxLength secs (contentParts @ [sec]) (currentLength + int (length sec)))"

definition elision :: string where
  "elision = [CHR 0x0A, CHR 0x0A] @ ''// ...'' @ [CHR 0x0A, CHR 0x0A]"

definition is_import_line :: "string \<Rightarrow> bool" where
  "is_import_line l =
     (starts_with l ''import'' \<or> starts_with l ''export'' \<or> starts_with l ''from''
      \<or> starts_with l ''require'')"

definition import_range :: "string list \<Rightarrow> line_range list" where
  "import_range lines =
     (let importExportLines = filter (\<lambda>i. is_import_line (lines ! i)) [0 ..< length lines];
          early = filter (\<lambda>i. i < 50) importExportLines
      in if importExportLines \<noteq> [] \<and> early \<noteq> []
         then [\<lparr>range_start = 0, range_end = int (Max (set early)) + 1\<rparr>] else [])"

definition section_text :: "string list \<Rightarrow> line_range \<Rightarrow> string" where
  "section_text lines r = join [CHR 0x0A] (js_slice lines (range_start r) (range_end r))"

text \<open>
  The ranges \<open>extractRelevantSections\<close> collects in \<open>includedRanges\<close>: the import block,
  the functions, the classes.
\<close>

definition included_ranges :: "json \<Rightarrow> string list \<Rightarrow> js_error + line_range list" where
  "included_ranges fileData lines =
     (case each_boundary lines (get_prop fileData ''functions'') of
        Inl e \<Rightarrow> Inl e
      | Inr functionLines \<Rightarrow>
          (case each_boundary lines (get_prop fileData ''classes'') of
             Inl e \<Rightarrow> Inl e
           | Inr classLines \<Rightarrow>
               Inr (import_range lines @ map snd functionLines @ map snd classLines)))"

text \<open>\<open>extractRelevantSections(fileData, maxLength)\<close>, for a string \<open>raw\<close>.\<close>

definition extractRelevantSections :: "json \<Rightarrow> string \<Rightarrow> int \<Rightarrow> js_error + string" where
  "extractRelevantSections fileData raw maxLength =
     (if raw = [] then Inr []
      else
        (let lines = split_lines raw in
         case included_ranges fileData lines of
           Inl e \<Rightarrow> Inl e
         | Inr includedRanges \<Rightarrow>
             (let mergedRanges = mergeRanges (sort_key range_start includedRanges);
                  contentParts = take_sections maxLength (map (section_text lines) mergedRanges) [] 0
              in Inr (join elision contentParts))))"

text \<open>\<open>getContext\<close>'s options, with the defaults of its destructuring.\<close>

record options =
  opt_maxNodes :: int
  opt_includeCode :: bool
  opt_includeRelationships :: bool
  opt_maxFiles :: int
  opt_maxCodeLength :: int
  opt_includeFullFiles :: bool

definition default_options :: options where
  "default_options =
     \<lparr>opt_maxNodes = 50, opt_includeCode = True, opt_includeRelationships = True,
      opt_maxFiles = 10, opt_maxCodeLength = 5000, opt_includeFullFiles = True\<rparr>"

text \<open>
  The loops of \<open>getRepositoryOverview\<close> and \<open>findRelevantNodes\<close> push a node unless its
  id is in \<open>addedIds\<close>; some also test the number of nodes pushed so far.
\<close>

fun push_new :: "(node list \<Rightarrow> bool) \<Rightarrow> node list \<Rightarrow> node list \<times> string set \<Rightarrow> node list \<times> string set" where
  "push_new room [] st = st"
| "push_new room (n # ns) (acc, addedIds) =
     (if node_id n \<notin> addedIds \<and> room acc
      then push_new room ns (acc @ [n], insert (node_id n) addedIds)
      else push_new room ns (acc, addedIds))"

definition getRepositoryOverview :: "graph \<Rightarrow> int \<Rightarrow> node list" where
  "getRepositoryOverview g maxNodes =
     (let files = js_slice (findNodesByType g ''file'') 0 (maxNodes div 3);
          st1 = push_new (\<lambda>acc. True) files ([], {});
          functions = js_slice (findNodesByType g ''function'') 0 (maxNodes div 3);
          st2 = push_new (\<lambda>acc. True) functions st1;
          classes = js_slice (findNodesByType g ''class'') 0 (maxNodes div 3);
          st3 = push_new (\<lambda>acc. True) classes st2;
          exports = findNodesByType g ''export'';
          st4 = push_new (\<lambda>acc. int (length acc) < maxNodes) exports st3
      in fst st4)"

definition getSampleNodes :: "graph \<Rightarrow> int \<Rightarrow> node list" where
  "getSampleNodes g count = js_slice (map snd (nodes g)) 0 count"

fun relevant_loop :: "graph \<Rightarrow> int \<Rightarrow> node list \<Rightarrow> node list \<times> string set \<Rightarrow> node list \<times> string set" where
  "relevant_loop g maxNodes [] st = st"
| "relevant_loop g maxNodes (n # ns) (relevantNodes, addedIds) =
     (if node_id n \<notin> addedIds then
        (let connected = fst (traverseGraph g (node_id n) 2 {}) in
         relevant_loop g maxNodes ns
           (push_new (\<lambda>acc. int (length acc) < maxNodes) (js_slice connected 0 5)
              (relevantNodes @ [n], insert (node_id n) addedIds)))
      else relevant_loop g maxNodes ns (relevantNodes, addedIds))"

definition findRelevantNodes :: "graph \<Rightarrow> string \<Rightarrow> int \<Rightarrow> js_error + node list" where
  "findRelevantNodes g query maxNodes =
     (case searchNodes g query of
        Inl e \<Rightarrow> Inl e
      | Inr searchResults \<Rightarrow>
          (let nodesToProcess =
                 (if searchResults \<noteq> [] then searchResults else getSampleNodes g maxNodes)
           in Inr (fst (relevant_loop g maxNodes (js_slice nodesToProcess 0 maxNodes) ([], {})))))"

definition prioritizeNodesByRelevance :: "node list \<Rightarrow> node list" where
  "prioritizeNodesByRelevance ns =
     filter (\<lambda>n. node_type n = ''file'') ns
     @ filter (\<lambda>n. node_type n = ''function'' \<or> node_type n = ''class'') ns
     @ filter (\<lambda>n. node_type n = ''export'') ns
     @ filter (\<lambda>n. node_type n \<notin> {''file'', ''function'', ''class'', ''export''}) ns"

text \<open>One entry of \<open>filesWithContent\<close>.\<close>

record file_content =
  fc_path :: string
  fc_content :: string
  fullLength :: nat
  fc_type :: json
  fc_functions :: json
  fc_classes :: json
  fc_exports :: json
  fc_imports :: json
  relevanceScore :: int

text \<open>\<open>v || d\<close>\<close>

definition or_else :: "json option \<Rightarrow> json \<Rightarrow> json" where
  "or_else v d = (case v of Some x \<Rightarrow> if truthy x then x else d | None \<Rightarrow> d)"

text \<open>
  The object built for a file node whose \<open>raw\<close> is the non-empty string \<open>raw\<close>:
  the whole text, or its first \<open>maxCodeLength\<close> characters, replaced by the relevant
  sections when the text is longer than that.
\<close>

definition make_content :: "node \<Rightarrow> string \<Rightarrow> string \<Rightarrow> int \<Rightarrow> bool \<Rightarrow> js_error + file_content" where
  "make_content fileNode raw path maxCodeLength includeFullFiles =
     (let d = node_data fileNode;
          fc = \<lparr>fc_path = path,
                fc_content = (if includeFullFiles then raw else take (nat maxCodeLength) raw),
                fullLength = length raw,
                fc_type = or_else (get_prop d ''type'') (JStr ''unknown''),
                fc_functions = or_else (get_prop d ''functions'') (JArr []),
                fc_classes = or_else (get_prop d ''classes'') (JArr []),
                fc_exports = or_else (get_prop d ''exports'') (JArr []),
                fc_imports = or_else (get_prop d ''imports'') (JArr []),
                relevanceScore = 0\<rparr>
      in if \<not> includeFullFiles \<and> maxCodeLength < int (length raw) then
           (case extractRelevantSections d raw maxCodeLength of
              Inl e \<Rightarrow> Inl e
            | Inr content \<Rightarrow> Inr (fc\<lparr>fc_content := content\<rparr>))
         else Inr fc)"

text \<open>
  The first file node stored under a path, with its \<open>raw\<close> when that is truthy (a
  string here).
\<close>

definition raw_file :: "graph \<Rightarrow> string \<Rightarrow> js_error + (node \<times> string) option" where
  "raw_file g path =
     (case findNodesByProperty g ''path'' path (Some ''file'') of
        [] \<Rightarrow> Inr None
      | fileNode # others \<Rightarrow>
          (case get_prop (node_data fileNode) ''raw'' of
             None \<Rightarrow> Inr None
           | Some (JStr raw) \<Rightarrow> Inr (if raw = [] then None else Some (fileNode, raw))
           | Some v \<Rightarrow> if truthy v then Inl NotModelled else Inr None))"

text \<open>
  A truthy \<open>data.path\<close> or \<open>data.file\<close> as a string: \<open>Inr None\<close> when the node has no
  data or the property is falsy.
\<close>

definition string_prop :: "node \<Rightarrow> string \<Rightarrow> js_error + string option" where
  "string_prop n k =
     (if truthy (node_data n) \<and> truthy_opt (get_prop (node_data n) k) then
        (case get_prop (node_data n) k of
           Some (JStr s) \<Rightarrow> Inr (Some s)
         | _ \<Rightarrow> Inl NotModelled)
      else Inr None)"

text \<open>
  The body of the loop of \<open>getFilesWithContent\<close>.  Either branch pushes the file it
  finds under the path; the third component of the result tells whether a branch was
  entered, where the test for \<open>break\<close> stands.  The first branch marks the path as
  processed before it looks for the file, the second one after it has found it.
\<close>

definition push_file ::
  "graph \<Rightarrow> int \<Rightarrow> bool \<Rightarrow> string \<Rightarrow> bool \<Rightarrow> file_content list \<Rightarrow> string set
     \<Rightarrow> js_error + (file_content list \<times> string set \<times> bool)" where
  "push_file g maxCodeLength includeFullFiles path mark filesWithContent processedPaths =
     (case raw_file g path of
        Inl e \<Rightarrow> Inl e
      | Inr None \<Rightarrow>
          Inr (filesWithContent, if mark then insert path processedPaths else processedPaths, True)
      | Inr (Some (fileNode, raw)) \<Rightarrow>
          (case make_content fileNode raw path maxCodeLength includeFullFiles of
             Inl e \<Rightarrow> Inl e
           | Inr fc \<Rightarrow> Inr (filesWithContent @ [fc], insert path processedPaths, True)))"

definition file_step ::
  "graph \<Rightarrow> int \<Rightarrow> bool \<Rightarrow> node \<Rightarrow> file_content list \<Rightarrow> string set
     \<Rightarrow> js_error + (file_content list \<times> string set \<times> bool)" where
  "file_step g maxCodeLength includeFullFiles n filesWithContent processedPaths =
     (case (if node_type n = ''file'' then string_prop n ''path'' else Inr None) of
        Inl e \<Rightarrow> Inl e
      | Inr path \<Rightarrow>
          (if path \<noteq> None \<and> the path \<notin> processedPaths then
             push_file g maxCodeLength includeFullFiles (the path) True filesWithContent processedPaths
           else
             (case string_prop n ''file'' of
                Inl e \<Rightarrow> Inl e
              | Inr file \<Rightarrow>
                  (if file \<noteq> None \<and> the file \<notin> processedPaths then
                     push_file g maxCodeLength includeFullFiles (the file) False
                       filesWithContent processedPaths
                   else Inr (filesWithContent, processedPaths, False)))))"

text \<open>
  The loop over the prioritized nodes; \<open>break\<close> returns what has been collected.
\<close>

fun files_loop ::
  "graph \<Rightarrow> int \<Rightarrow> int \<Rightarrow> bool \<Rightarrow> node list \<Rightarrow> file_content list \<Rightarrow> string set
     \<Rightarrow> js_error + file_content list" where
  "files_loop g maxFiles maxCodeLength includeFullFiles [] filesWithContent processedPaths =
     Inr filesWithContent"
| "files_loop g maxFiles maxCodeLength includeFullFiles (n # ns) filesWithContent processedPaths =
     (case file_step g maxCodeLength includeFullFiles n filesWithContent processedPaths of
        Inl e \<Rightarrow> Inl e
      | Inr (files', paths', entered) \<Rightarrow>
          (if entered \<and> maxFiles \<le> int (length files') then Inr files'
           else files_loop g maxFiles maxCodeLength includeFullFiles ns files' paths'))"

definition getFilesWithContent ::
  "graph \<Rightarrow> node list \<Rightarrow> int \<Rightarrow> int \<Rightarrow> bool \<Rightarrow> js_error + file_content list" where
  "getFilesWithContent g ns maxFiles maxCodeLength includeFullFiles =
     (case files_loop g maxFiles maxCodeLength includeFullFiles (prioritizeNodesByRelevance ns) [] {} of
        Inl e \<Rightarrow> Inl e
      | Inr filesWithContent \<Rightarrow> Inr (sort_key (\<lambda>f. - relevanceScore f) filesWithContent))"

text \<open>
  \<open>getContext(query, options)\<close> for the format \<open>structured\<close>, which returns the context
  object.  Of the object the embedding keeps the query, the nodes and
  \<open>filesWithContent\<close>.  The summary, the relationships and the code snippets are computed
  from the nodes after \<open>filesWithContent\<close>; of them it keeps what can end the call:
  \<open>generateSummary\<close> reads \<open>node.data.path\<close> or \<open>node.data.name\<close> of every file,
  function and class node and \<open>extractCodeSnippets\<close> reads \<open>node.data.path\<close> or
  \<open>node.data.code\<close> of every file and code block node, which throws when the data is
  \<open>null\<close>.
\<close>

record llm_context =
  ctx_query :: string
  ctx_nodes :: "node list"
  filesWithContent :: "file_content list"

definition overview_query :: "string \<Rightarrow> bool" where
  "overview_query query =
     (query = [] \<or> str_includes (toLowerCase query) ''overview''
      \<or> str_includes (toLowerCase query) ''module'')"

definition summary_throws :: "node list \<Rightarrow> bool" where
  "summary_throws ns =
     (\<exists>n \<in> set ns. node_type n \<in> {''file'', ''function'', ''class''} \<and> node_data n = JNull)"

definition snippets_throw :: "node list \<Rightarrow> bool" where
  "snippets_throw ns =
     (\<exists>n \<in> set ns. node_type n \<in> {''file'', ''codeblock''} \<and> node_data n = JNull)"

definition getContext :: "graph \<Rightarrow> string \<Rightarrow> options \<Rightarrow> js_error + llm_context" where
  "getContext g query opts =
     (case (if overview_query query then Inr (getRepositoryOverview g (opt_maxNodes opts))
            else findRelevantNodes g query (opt_maxNodes opts)) of
        Inl e \<Rightarrow> Inl e
      | Inr relevantNodes \<Rightarrow>
          (case getFilesWithContent g relevantNodes (opt_maxFiles opts) (opt_maxCodeLength opts)
                  (opt_includeFullFiles opts) of
             Inl e \<Rightarrow> Inl e
           | Inr files \<Rightarrow>
               (if summary_throws relevantNodes
                   \<or> (opt_includeCode opts \<and> snippets_throw relevantNodes)
                then Inl TypeError
                else Inr \<lparr>ctx_query = query, ctx_nodes = relevantNodes, filesWithContent = files\<rparr>)))"

section \<open>Sample graphs\<close>

text \<open>
  A store populated the way \<open>addFileToGraph\<close> populates it from one parsed file: the
  file node, one node for each function, and a \<open>defines\<close> edge from the file to each.
  The file \<open>a.js\<close> defines \<open>login\<close> at line 3 and \<open>logout\<close> at line 10.
\<close>

definition stamp :: string where
  "stamp = ''2024-01-01T00:00:00.000Z''"

definition a_js_lines :: "string list" where
  "a_js_lines =
     [''const db = require(DB);'',
      '''',
      ''function login(user) {'',
      ''  if (!user) {'',
      ''    return null;'',
      ''  }'',
      ''  return db.find(user);'',
      ''}'',
      '''',
      ''function logout(user) {'',
      ''  db.drop(user);'',
      ''}'']"

definition a_js :: string where
  "a_js = join [CHR 0x0A] a_js_lines"

definition a_js_data :: json where
  "a_js_data =
     JObj [(''path'', JStr ''a.js''), (''extension'', JStr ''.js''), (''size'', JNum 153),
           (''type'', JStr ''javascript''), (''raw'', JStr a_js),
           (''functions'',
              JArr [JObj [(''name'', JStr ''login''), (''line'', JNum 3), (''type'', JStr ''regular'')],
                    JObj [(''name'', JStr ''logout''), (''line'', JNum 10), (''type'', JStr ''regular'')]]),
           (''classes'', JArr []), (''imports'', JArr []), (''exports'', JArr []),
           (''comments'', JArr [])]"

definition login_data :: json where
  "login_data =
     JObj [(''name'', JStr ''login''), (''file'', JStr ''a.js''), (''line'', JNum 3),
           (''type'', JStr ''regular'')]"

definition logout_data :: json where
  "logout_data =
     JObj [(''name'', JStr ''logout''), (''file'', JStr ''a.js''), (''line'', JNum 10),
           (''type'', JStr ''regular'')]"

text \<open>\<open>addNode\<close> and \<open>addEdge\<close> in sequence; a failed call leaves the graph as it is.\<close>

definition with_node :: "string \<Rightarrow> json \<Rightarrow> graph \<Rightarrow> graph" where
  "with_node ty d g = (case addNode g ty d stamp of Inl e \<Rightarrow> g | Inr (g', i) \<Rightarrow> g')"

definition with_edge :: "string \<Rightarrow> string \<Rightarrow> string \<Rightarrow> graph \<Rightarrow> graph" where
  "with_edge s t r g = fst (addEdge g s t r (JObj []) stamp)"

definition sample_graph :: graph where
  "sample_graph =
     with_edge ''node_1'' ''node_3'' ''defines''
       (with_node ''function'' logout_data
         (with_edge ''node_1'' ''node_2'' ''defines''
           (with_node ''function'' login_data
             (with_node ''file'' a_js_data empty_graph))))"

text \<open>Two classes, each extending the other: the edge relation has a cycle.\<close>

definition cyclic_graph :: graph where
  "cyclic_graph =
     with_edge ''node_2'' ''node_1'' ''extends''
       (with_edge ''node_1'' ''node_2'' ''extends''
         (with_node ''class'' (JObj [(''name'', JStr ''B''), (''file'', JStr ''b.js''), (''line'', JNum 5),
                                     (''extends'', JStr ''A'')])
           (with_node ''class'' (JObj [(''name'', JStr ''A''), (''file'', JStr ''b.js''), (''line'', JNum 1),
                                       (''extends'', JStr ''B'')])
             empty_graph)))"

text \<open>A class whose name has a capital letter, added with \<open>addNode\<close>.\<close>

definition session_data :: json where
  "session_data =
     JObj [(''name'', JStr ''Session''), (''file'', JStr ''s.js''), (''line'', JNum 1),
           (''extends'', JNull)]"

definition session_graph :: graph where
  "session_graph = with_node ''class'' session_data empty_graph"

section \<open>The relevance of \<open>searchNodes\<close> in the spec's words\<close>

text \<open>
  The query occurs as a whole word at index \<open>i\<close> of \<open>s\<close>: the text is there and a word
  boundary is on either side.
\<close>

definition whole_word_at :: "string \<Rightarrow> string \<Rightarrow> nat \<Rightarrow> bool" where
  "whole_word_at q s i =
     (at_boundary s i \<and> starts_with (drop i s) q \<and> at_boundary s (i + length q))"

text \<open>
  The relevance as the spec's sentence gives it: the type and the serialized data are
  searched for the lowercased query, and every whole-word occurrence counts 3.
\<close>

definition whole_word_occurrences :: "string \<Rightarrow> string \<Rightarrow> nat" where
  "whole_word_occurrences q s = length (filter (whole_word_at q s) [0 ..< Suc (length s)])"

definition claimed_relevance :: "string \<Rightarrow> node \<Rightarrow> int" where
  "claimed_relevance query n =
     (if str_includes (node_type n) (toLowerCase query) then 2 else 0)
     + (if str_includes (stringify (node_data n)) (toLowerCase query) then 1 else 0)
     + 3 * int (whole_word_occurrences (toLowerCase query) (stringify (node_data n)))"

text \<open>
  The amended sentence: the data, when the node has any, is serialized and lowercased
  before it is searched, and the whole-word occurrences are counted from left to right,
  each search starting where the last occurrence ended.
\<close>

function word_hits :: "string \<Rightarrow> string \<Rightarrow> nat \<Rightarrow> nat" where
  "word_hits q s i =
     (if length s < i then 0
      else if whole_word_at q s i then Suc (word_hits q s (i + max 1 (length q)))
      else word_hits q s (Suc i))"
  by pat_completeness auto
termination
  by (relation "measure (\<lambda>(q, s, i). Suc (length s) - i)") auto

declare word_hits.simps [simp del]

definition amended_relevance :: "string \<Rightarrow> node \<Rightarrow> int" where
  "amended_relevance query n =
     (let q = toLowerCase query; dataStr = toLowerCase (stringify (node_data n)) in
      (if str_includes (node_type n) q then 2 else 0)
      + (if truthy (node_data n) \<and> str_includes dataStr q
         then 1 + 3 * int (word_hits q dataStr 0) else 0))"

definition plain_query :: "string \<Rightarrow> bool" where
  "plain_query q = (\<forall>c \<in> set q. \<not> syntax_char c)"

definition candidates :: "graph \<Rightarrow> string \<Rightarrow> scored list" where
  "candidates g query =
     map (\<lambda>n. \<lparr>scored_node = n, relevance = amended_relevance query n\<rparr>)
       (filter (\<lambda>n. 0 < amended_relevance query n) (map snd (nodes g)))"

section \<open>Sample nodes for the ranker\<close>

text \<open>
  Two function nodes that differ in \<open>data.name\<close> only, and the keywords of the query
  \<open>log gin\<close> (each its own stem).
\<close>

definition named_node :: "string \<Rightarrow> node" where
  "named_node nm =
     \<lparr>node_id = ''node_1'', node_type = ''function'',
      node_data = JObj [(''name'', JStr nm), (''file'', JStr ''a.js''), (''line'', JNum 3)],
      node_timestamp = stamp\<rparr>"

definition log_gin :: "keyword list" where
  "log_gin = [\<lparr>original = ''log'', stemmed = ''log''\<rparr>, \<lparr>original = ''gin'', stemmed = ''gin''\<rparr>]"

text \<open>A string that \<open>JSON.stringify\<close> quotes without an escape.\<close>

definition json_plain :: "string \<Rightarrow> bool" where
  "json_plain s = (\<forall>c \<in> set s. escape_char c = [c])"

text \<open>
  A file whose one function has a default parameter \<open>{}\<close> on its first line, with the
  function's node.
\<close>

definition b_js_lines :: "string list" where
  "b_js_lines =
     [''function greet(opts = {}) {'',
      ''  return opts.name;'',
      ''}'']"

definition b_js :: string where
  "b_js = join [CHR 0x0A] b_js_lines"

definition b_js_data :: json where
  "b_js_data =
     JObj [(''path'', JStr ''b.js''), (''extension'', JStr ''.js''), (''size'', JNum 49),
           (''type'', JStr ''javascript''), (''raw'', JStr b_js),
           (''functions'',
              JArr [JObj [(''name'', JStr ''greet''), (''line'', JNum 1), (''type'', JStr ''regular'')]]),
           (''classes'', JArr []), (''imports'', JArr []), (''exports'', JArr []),
           (''comments'', JArr [])]"

definition greet_graph :: graph where
  "greet_graph =
     with_edge ''node_1'' ''node_2'' ''defines''
       (with_node ''function''
          (JObj [(''name'', JStr ''greet''), (''file'', JStr ''b.js''), (''line'', JNum 1),
                 (''type'', JStr ''regular'')])
         (with_node ''file'' b_js_data empty_graph))"

section \<open>Well-formed stores\<close>

text \<open>
  What \<open>addFileToGraph\<close> guarantees of the nodes it adds and the context builder relies
  on: a node has data (\<open>addNode\<close> itself throws on \<open>null\<close>), and \<open>path\<close>, \<open>file\<close> and
  \<open>raw\<close> are strings where they are truthy.
\<close>

definition string_or_falsy :: "json option \<Rightarrow> bool" where
  "string_or_falsy v =
     (case v of None \<Rightarrow> True | Some (JStr s) \<Rightarrow> True | Some x \<Rightarrow> \<not> truthy x)"

definition typed_node :: "node \<Rightarrow> bool" where
  "typed_node n =
     (node_data n \<noteq> JNull
      \<and> string_or_falsy (get_prop (node_data n) ''path'')
      \<and> string_or_falsy (get_prop (node_data n) ''file'')
      \<and> string_or_falsy (get_prop (node_data n) ''raw''))"

definition typed_graph :: "graph \<Rightarrow> bool" where
  "typed_graph g = (\<forall>n \<in> set (map snd (nodes g)). typed_node n)"

text \<open>The sections of a file: the text of its merged ranges.\<close>

definition file_sections :: "json \<Rightarrow> string \<Rightarrow> js_error + string list" where
  "file_sections fileData raw =
     (case included_ranges fileData (split_lines raw) of
        Inl e \<Rightarrow> Inl e
      | Inr includedRanges \<Rightarrow>
          Inr (map (section_text (split_lines raw))
                 (mergeRanges (sort_key range_start includedRanges))))"

text \<open>The number of \<open>{\<close> less the number of \<open>}\<close> in a text.\<close>

definition open_braces :: "string \<Rightarrow> int" where
  "open_braces s = int (length (filter (\<lambda>c. c = CHR ''{'') s)) - int (length (filter (\<lambda>c. c = CHR ''}'') s))"

section \<open>Coalescing line ranges in the spec's words\<close>

text \<open>
  What it means for a function \<open>merge\<close> on lists of ranges to sort by start line and to
  coalesce with a given slack: its result depends on the list sorted by start only, and
  on a list sorted by start it takes the second range into the first exactly when the
  second starts at most \<open>slack\<close> lines after the first one's end, going on with the
  widened range; otherwise it emits the first range and goes on from the second.
\<close>

definition coalesces :: "int \<Rightarrow> ('a line_range_scheme list \<Rightarrow> 'a line_range_scheme list) \<Rightarrow> bool" where
  "coalesces slack merge =
     (merge [] = []
      \<and> (\<forall>a. merge [a] = [a])
      \<and> (\<forall>xs. merge xs = merge (sort_key range_start xs))
      \<and> (\<forall>a b rest. sorted (map range_start (a # b # rest)) \<longrightarrow>
            merge (a # b # rest) =
              (if range_start b \<le> range_end a + slack
               then merge (a\<lparr>range_end := max (range_end a) (range_end b)\<rparr> # rest)
               else a # merge (b # rest))))"

text \<open>A range \<open>r\<close> lies within a range \<open>m\<close>.\<close>

definition within :: "'a line_range_scheme \<Rightarrow> 'a line_range_scheme \<Rightarrow> bool" where
  "within r m = (range_start m \<le> range_start r \<and> range_end r \<le> range_end m)"

text \<open>The shape both merges have on the ranges sorted by start: the loop, run from the first.\<close>

definition merge_sorted :: "int \<Rightarrow> 'a line_range_scheme list \<Rightarrow> 'a line_range_scheme list" where
  "merge_sorted slack xs =
     (case sort_key range_start xs of
        [] \<Rightarrow> []
      | first # rest \<Rightarrow> merge_loop slack first rest)"

text \<open>What one keyword alone scores on a node.\<close>

definition keyword_score :: "node \<Rightarrow> keyword \<Rightarrow> int" where
  "keyword_score n kw = (case calculateRelevance n [kw] of Inr r \<Rightarrow> r | Inl e \<Rightarrow> 0)"

section \<open>Ids generated after an import\<close>

text \<open>The ids that \<open>n\<close> successive calls of \<open>generateNodeId\<close> return, from the store \<open>g\<close> on.\<close>

fun generateNodeIds :: "graph \<Rightarrow> nat \<Rightarrow> string list" where
  "generateNodeIds g 0 = []"
| "generateNodeIds g (Suc n) = (let (g1, i) = generateNodeId g in i # generateNodeIds g1 n)"

text \<open>
  A store with one node, added by \<open>addNode\<close> under the id \<open>node_9007199254740992\<close> that
  its data gives: the number is \<open>2 ^ 53\<close>.
\<close>

definition big_id_graph :: graph where
  "big_id_graph =
     with_node ''file'' (JObj [(''id'', JStr ''node_9007199254740992''), (''path'', JStr ''big.js'')])
       empty_graph"

section \<open>A file with three sections\<close>

text \<open>
  A file whose export line and two one-line functions lie more than a line apart, with
  the nodes and edges \<open>addFileToGraph\<close> adds for it.
\<close>

definition c_js_lines :: "string list" where
  "c_js_lines =
     [''export default two;'',
      '''',
      '''',
      ''function one() { return 1; }'',
      '''',
      '''',
      ''function two() { return 2; }'']"

definition c_js :: string where
  "c_js = join [CHR 0x0A] c_js_lines"

definition c_js_data :: json where
  "c_js_data =
     JObj [(''path'', JStr ''c.js''), (''extension'', JStr ''.js''), (''size'', JNum 81),
           (''type'', JStr ''javascript''), (''raw'', JStr c_js),
           (''functions'',
              JArr [JObj [(''name'', JStr ''one''), (''line'', JNum 4), (''type'', JStr ''regular'')],
                    JObj [(''name'', JStr ''two''), (''line'', JNum 7), (''type'', JStr ''regular'')]]),
           (''classes'', JArr []), (''imports'', JArr []), (''exports'', JArr [JStr ''two'']),
           (''comments'', JArr [])]"

definition sections_graph :: graph where
  "sections_graph =
     with_edge ''node_1'' ''node_4'' ''exports''
       (with_node ''export'' (JObj [(''name'', JStr ''two''), (''file'', JStr ''c.js'')])
         (with_edge ''node_1'' ''node_3'' ''defines''
           (with_node ''function''
              (JObj [(''name'', JStr ''two''), (''file'', JStr ''c.js''), (''line'', JNum 7),
                     (''type'', JStr ''regular'')])
             (with_edge ''node_1'' ''node_2'' ''defines''
               (with_node ''function''
                  (JObj [(''name'', JStr ''one''), (''file'', JStr ''c.js''), (''line'', JNum 4),
                         (''type'', JStr ''regular'')])
                 (with_node ''file'' c_js_data empty_graph))))))"

text \<open>The texts of the files of a context, when the call returns one.\<close>

definition contents :: "js_error + llm_context \<Rightarrow> js_error + string list" where
  "contents r = (case r of Inl e \<Rightarrow> Inl e | Inr c \<Rightarrow> Inr (map fc_content (filesWithContent c)))"

section \<open>The files of a node list, without the bound\<close>

text \<open>
  What the loop of \<open>getFilesWithContent\<close> collects from the nodes \<open>ns\<close> when \<open>maxFiles\<close>
  is larger than the number of nodes, so that the loop never breaks.
\<close>

definition files_in_order :: "graph \<Rightarrow> int \<Rightarrow> bool \<Rightarrow> node list \<Rightarrow> js_error + file_content list" where
  "files_in_order g maxCodeLength includeFullFiles ns =
     files_loop g (int (length ns) + 1) maxCodeLength includeFullFiles ns [] {}"

text \<open>
  The nodes of the repository overview in the claim's words: up to a third of
  \<open>maxNodes\<close> file nodes, as many function nodes and as many class nodes, each in insertion
  order, then export nodes while the list is shorter than \<open>maxNodes\<close>.
\<close>

definition overview_quota :: "graph \<Rightarrow> int \<Rightarrow> node list" where
  "overview_quota g maxNodes =
     (let q = nat (maxNodes div 3);
          sample = take q (findNodesByType g ''file'') @ take q (findNodesByType g ''function'')
                   @ take q (findNodesByType g ''class'')
      in sample @ take (nat maxNodes - length sample) (findNodesByType g ''export''))"

section \<open>A store with three files\<close>

text \<open>Three file nodes with their text, and a function node of the third file.\<close>

definition three_files_graph :: graph where
  "three_files_graph =
     with_edge ''node_3'' ''node_4'' ''defines''
       (with_node ''function''
          (JObj [(''name'', JStr ''z''), (''file'', JStr ''z.js''), (''line'', JNum 1),
                 (''type'', JStr ''regular'')])
         (with_node ''file''
            (JObj [(''path'', JStr ''z.js''), (''type'', JStr ''javascript''),
                   (''raw'', JStr ''function z() {}''),
                   (''functions'',
                      JArr [JObj [(''name'', JStr ''z''), (''line'', JNum 1), (''type'', JStr ''regular'')]])])
           (with_node ''file''
              (JObj [(''path'', JStr ''y.js''), (''type'', JStr ''javascript''), (''raw'', JStr ''let y;'')])
             (with_node ''file''
                (JObj [(''path'', JStr ''x.js''), (''type'', JStr ''javascript''), (''raw'', JStr ''let x;'')])
               empty_graph))))"

text \<open>The ids of the nodes and the paths of the files of a context, when the call returns one.\<close>

definition context_node_ids :: "js_error + llm_context \<Rightarrow> js_error + string list" where
  "context_node_ids r = (case r of Inl e \<Rightarrow> Inl e | Inr c \<Rightarrow> Inr (map node_id (ctx_nodes c)))"

definition file_paths :: "js_error + llm_context \<Rightarrow> js_error + string list" where
  "file_paths r = (case r of Inl e \<Rightarrow> Inl e | Inr c \<Rightarrow> Inr (map fc_path (filesWithContent c)))"

text \<open>
  The sections taken within a budget \<open>m\<close>: the first sections, in order; more than one
  only while the sum of their lengths stays within \<open>m\<close>; and when a section is left
  out, something has been taken and the next section would pass \<open>m\<close>.
\<close>

definition budget_prefix :: "int \<Rightarrow> string list \<Rightarrow> string list \<Rightarrow> bool" where
  "budget_prefix m secs parts =
     (parts = take (length parts) secs
      \<and> (length parts \<le> 1 \<or> int (sum_list (map length parts)) \<le> m)
      \<and> (length parts < length secs \<longrightarrow>
            parts \<noteq> [] \<and> m < int (sum_list (map length parts)) + int (length (secs ! length parts))))"

section \<open>Properties\<close>

subsection \<open>Traversal\<close>

lemma nodes_keyed_lookup: "nodes_keyed g \<Longrightarrow> map_of (nodes g) k = Some n \<Longrightarrow> node_id n = k"
  unfolding nodes_keyed_def by (auto dest: map_of_SomeD)

lemma traverse_fresh:
  shows "nodes_keyed g \<Longrightarrow> V \<subseteq> snd (traverseGraph g s d V)
       \<and> node_id ` set (fst (traverseGraph g s d V)) \<subseteq> snd (traverseGraph g s d V) - V
       \<and> distinct (map node_id (fst (traverseGraph g s d V)))"
    and "nodes_keyed g \<Longrightarrow> V \<subseteq> snd (traverse_edges g s d es V)
       \<and> node_id ` set (fst (traverse_edges g s d es V)) \<subseteq> snd (traverse_edges g s d es V) - V
       \<and> distinct (map node_id (fst (traverse_edges g s d es V)))"
proof (induction g s d V and g s d es V rule: traverseGraph_traverse_edges.induct)
  case (1 g startNodeId maxDepth visited)
  show ?case
  proof (cases "startNodeId \<in> visited \<or> maxDepth = 0")
    case True
    then show ?thesis by (simp add: traverseGraph.simps)
  next
    case False
    show ?thesis
    proof (cases "map_of (nodes g) startNodeId")
      case None
      with False show ?thesis by (auto simp: traverseGraph.simps)
    next
      case (Some n)
      obtain r Vr where r: "traverse_edges g startNodeId maxDepth
          (getNodeConnections g startNodeId None) (insert startNodeId visited) = (r, Vr)"
        by (cases "traverse_edges g startNodeId maxDepth
          (getNodeConnections g startNodeId None) (insert startNodeId visited)")
      from 1(1)[OF False Some 1(2)] r have ih:
        "insert startNodeId visited \<subseteq> Vr"
        "node_id ` set r \<subseteq> Vr - insert startNodeId visited"
        "distinct (map node_id r)" by auto
      have id: "node_id n = startNodeId"
        using 1(2) Some by (rule nodes_keyed_lookup)
      have eq: "traverseGraph g startNodeId maxDepth visited = (n # r, Vr)"
        using False Some r by (simp add: traverseGraph.simps)
      have "startNodeId \<notin> node_id ` set r" using ih(2) by blast
      then show ?thesis unfolding eq using ih id False by auto
    qed
  qed
next
  case (2 g startNodeId maxDepth visited)
  show ?case by (simp add: traverse_edges.simps)
next
  case (3 g startNodeId maxDepth e rest visited)
  define x where "x = (if edge_source e = startNodeId then edge_target e else edge_source e)"
  obtain ra Va where a: "traverseGraph g x (maxDepth - 1) visited = (ra, Va)"
    by (cases "traverseGraph g x (maxDepth - 1) visited")
  obtain rb Vb where b: "traverse_edges g startNodeId maxDepth rest Va = (rb, Vb)"
    by (cases "traverse_edges g startNodeId maxDepth rest Va")
  have iha: "visited \<subseteq> Va" "node_id ` set ra \<subseteq> Va - visited" "distinct (map node_id ra)"
    using 3(1)[OF x_def 3(3)] a by auto
  have ihb: "Va \<subseteq> Vb" "node_id ` set rb \<subseteq> Vb - Va" "distinct (map node_id rb)"
    using 3(2)[OF x_def refl _ 3(3), of ra Va] a b by auto
  have eq: "traverse_edges g startNodeId maxDepth (e # rest) visited = (ra @ rb, Vb)"
    using a b by (simp add: traverse_edges.simps x_def Let_def)
  have "node_id ` set ra \<inter> node_id ` set rb = {}"
    using iha(2) ihb(2) by blast
  then show ?case unfolding eq using iha ihb by auto
qed

lemma traverse_nodes_of_graph:
  shows "set (fst (traverseGraph g s d V)) \<subseteq> snd ` set (nodes g)"
    and "set (fst (traverse_edges g s d es V)) \<subseteq> snd ` set (nodes g)"
proof (induction g s d V and g s d es V rule: traverseGraph_traverse_edges.induct)
  case (1 g startNodeId maxDepth visited)
  show ?case
  proof (cases "startNodeId \<in> visited \<or> maxDepth = 0")
    case True
    then show ?thesis by (simp add: traverseGraph.simps)
  next
    case False
    show ?thesis
    proof (cases "map_of (nodes g) startNodeId")
      case None
      with False show ?thesis by (simp add: traverseGraph.simps)
    next
      case (Some n)
      have "n \<in> snd ` set (nodes g)"
        using map_of_SomeD[OF Some] by force
      with 1[OF False Some] False Some show ?thesis
        by (auto simp: traverseGraph.simps split: prod.splits)
    qed
  qed
next
  case (2 g startNodeId maxDepth visited)
  show ?case by (simp add: traverse_edges.simps)
next
  case (3 g startNodeId maxDepth e rest visited)
  define x where "x = (if edge_source e = startNodeId then edge_target e else edge_source e)"
  obtain ra Va where a: "traverseGraph g x (maxDepth - 1) visited = (ra, Va)"
    by (cases "traverseGraph g x (maxDepth - 1) visited")
  obtain rb Vb where b: "traverse_edges g startNodeId maxDepth rest Va = (rb, Vb)"
    by (cases "traverse_edges g startNodeId maxDepth rest Va")
  have "set ra \<subseteq> snd ` set (nodes g)" using 3(1)[OF x_def] a by simp
  moreover have "set rb \<subseteq> snd ` set (nodes g)" using 3(2)[OF x_def refl, of ra Va] a b by simp
  moreover have "traverse_edges g startNodeId maxDepth (e # rest) visited = (ra @ rb, Vb)"
    using a b by (simp add: traverse_edges.simps x_def Let_def)
  ultimately show ?case by simp
qed

text \<open>
  C6: on every graph, cyclic or not, \<open>traverseGraph(startId, maxDepth, visited)\<close>
  terminates (every input lies in the domain of the recursion) and no node id occurs
  twice in the sequence it returns; with \<open>maxDepth = 0\<close> or a start node that is already
  in \<open>visited\<close> it returns the empty sequence.  The store keeps each node under its own
  id (\<open>nodes_keyed\<close>).
\<close>

theorem traverseGraph_terminates_visits_once:
  assumes "nodes_keyed g"
  shows "traverseGraph_traverse_edges_dom (Inl (g, startNodeId, maxDepth, visited))
       \<and> distinct (map node_id (fst (traverseGraph g startNodeId maxDepth visited)))
       \<and> (maxDepth = 0 \<or> startNodeId \<in> visited
             \<longrightarrow> fst (traverseGraph g startNodeId maxDepth visited) = [])"
proof -
  have "traverseGraph_traverse_edges_dom (Inl (g, startNodeId, maxDepth, visited))"
    using traverse_total by blast
  moreover have "distinct (map node_id (fst (traverseGraph g startNodeId maxDepth visited)))"
    using traverse_fresh(1)[OF assms] by blast
  moreover have "maxDepth = 0 \<or> startNodeId \<in> visited
      \<longrightarrow> fst (traverseGraph g startNodeId maxDepth visited) = []"
    by (auto simp: traverseGraph.simps)
  ultimately show ?thesis by blast
qed

lemma cyclic_graph_value:
  "cyclic_graph =
     \<lparr>nodes =
        [(''node_1'', \<lparr>node_id = ''node_1'', node_type = ''class'',
            node_data = JObj [(''name'', JStr ''A''), (''file'', JStr ''b.js''), (''line'', JNum 1),
                              (''extends'', JStr ''B'')],
            node_timestamp = stamp\<rparr>),
         (''node_2'', \<lparr>node_id = ''node_2'', node_type = ''class'',
            node_data = JObj [(''name'', JStr ''B''), (''file'', JStr ''b.js''), (''line'', JNum 5),
                              (''extends'', JStr ''A'')],
            node_timestamp = stamp\<rparr>)],
      edges =
        [(''edge_1'', EdgeObj \<lparr>edge_id = ''edge_1'', edge_source = ''node_1'', edge_target = ''node_2'',
            relationship = ''extends'', metadata = JObj [], edge_timestamp = stamp\<rparr>),
         (''node_1'', EdgeArr [\<lparr>edge_id = ''edge_1'', edge_source = ''node_1'', edge_target = ''node_2'',
            relationship = ''extends'', metadata = JObj [], edge_timestamp = stamp\<rparr>]),
         (''edge_2'', EdgeObj \<lparr>edge_id = ''edge_2'', edge_source = ''node_2'', edge_target = ''node_1'',
            relationship = ''extends'', metadata = JObj [], edge_timestamp = stamp\<rparr>),
         (''node_2'', EdgeArr [\<lparr>edge_id = ''edge_2'', edge_source = ''node_2'', edge_target = ''node_1'',
            relationship = ''extends'', metadata = JObj [], edge_timestamp = stamp\<rparr>])],
      repositories = [], nodeIdCounter = 2, edgeIdCounter = 2\<rparr>"
  by code_simp

lemma cyclic_graph_keyed: "nodes_keyed cyclic_graph"
  unfolding cyclic_graph_value nodes_keyed_def by simp

theorem traverseGraph_cycle_witness:
  "nodes_keyed cyclic_graph
   \<and> map node_id (fst (traverseGraph cyclic_graph ''node_1'' 3 {})) = [''node_1'', ''node_2'']
   \<and> distinct (map node_id (fst (traverseGraph cyclic_graph ''node_1'' 3 {})))
   \<and> fst (traverseGraph cyclic_graph ''node_1'' 0 {}) = []
   \<and> fst (traverseGraph cyclic_graph ''node_1'' 3 {''node_1''}) = []"
proof -
  have run: "map node_id (fst (traverseGraph cyclic_graph ''node_1'' 3 {})) = [''node_1'', ''node_2'']"
    by code_simp
  have d: "distinct (map node_id (fst (traverseGraph cyclic_graph ''node_1'' 3 {})))"
    using traverseGraph_terminates_visits_once[OF cyclic_graph_keyed, of "''node_1''" 3 "{}"]
    by blast
  have z: "fst (traverseGraph cyclic_graph ''node_1'' 0 {}) = []"
    using traverseGraph_terminates_visits_once[OF cyclic_graph_keyed, of "''node_1''" 0 "{}"]
    by blast
  have v: "fst (traverseGraph cyclic_graph ''node_1'' 3 {''node_1''}) = []"
    using traverseGraph_terminates_visits_once[OF cyclic_graph_keyed, of "''node_1''" 3 "{''node_1''}"]
    by blast
  show ?thesis using cyclic_graph_keyed run d z v by blast
qed

subsection \<open>The store's invariant\<close>

lemma update_fresh: "k \<notin> fst ` set al \<Longrightarrow> AList.update k v al = al @ [(k, v)]"
  by (induction al) auto

lemma graph_ok_empty: "graph_ok empty_graph"
  by (simp add: graph_ok_def empty_graph_def nodes_keyed_def edges_keyed_def)

lemma graph_ok_clear: "graph_ok (clear g)"
  by (simp add: graph_ok_def clear_def nodes_keyed_def edges_keyed_def)

lemma set_update_subset: "set (AList.update k v al) \<subseteq> insert (k, v) (set al)"
  by (induction al) auto

lemma nodes_keyed_update:
  "nodes_keyed g \<Longrightarrow> node_id n = k \<Longrightarrow> nodes_keyed (g\<lparr>nodes := AList.update k n (nodes g)\<rparr>)"
  unfolding nodes_keyed_def using set_update_subset[of k n "nodes g"] by auto

lemma graph_ok_addNode:
  assumes "graph_ok g" "addNode g ty d now = Inr (g', i)"
  shows "graph_ok g'"
  using assms
  by (auto simp: addNode_def graph_ok_def generateNodeId_def Let_def distinct_update
        nodes_keyed_def edges_keyed_def
      split: if_splits option.splits json.splits dest!: subsetD[OF set_update_subset])

lemma graph_ok_addEdge:
  assumes "graph_ok g"
  shows "graph_ok (fst (addEdge g s t r m now))"
  using assms
  by (auto simp: addEdge_def graph_ok_def generateEdgeId_def Let_def distinct_update
        nodes_keyed_def edges_keyed_def
      split: if_splits option.splits edge_entry.splits dest!: subsetD[OF set_update_subset])

lemma graph_ok_import_node: "graph_ok g \<Longrightarrow> graph_ok (import_node n g)"
  by (auto simp: import_node_def graph_ok_def distinct_update nodes_keyed_def edges_keyed_def
      dest!: subsetD[OF set_update_subset])

lemma graph_ok_import_edge: "graph_ok g \<Longrightarrow> graph_ok (import_edge e g)"
  by (auto simp: import_edge_def graph_ok_def distinct_update nodes_keyed_def edges_keyed_def
      dest!: subsetD[OF set_update_subset])

lemma graph_ok_import_repository: "graph_ok g \<Longrightarrow> graph_ok (import_repository r g)"
  by (auto simp: import_repository_def graph_ok_def nodes_keyed_def edges_keyed_def distinct_update)

lemma graph_ok_fold:
  assumes "\<And>x g. graph_ok g \<Longrightarrow> graph_ok (f x g)"
  shows "graph_ok g \<Longrightarrow> graph_ok (fold f xs g)"
  by (induction xs arbitrary: g) (auto intro: assms)

lemma graph_ok_import: "graph_ok (import_graph g d)"
  unfolding import_graph_def
  by (intro graph_ok_fold graph_ok_import_repository graph_ok_import_edge graph_ok_import_node
      graph_ok_clear)


subsection \<open>Round trip\<close>

lemma spread_node_same: "spread_node i n = n"
  by (simp add: spread_node_def)

lemma export_nodes: "snap_nodes (export_graph g now) = map snd (nodes g)"
  by (simp add: export_graph_def spread_node_same case_prod_unfold)

lemma nodes_fold_import_node:
  "nodes (fold import_node ns g) = fold (\<lambda>n. AList.update (node_id n) n) ns (nodes g)"
  by (induction ns arbitrary: g) (simp_all add: import_node_def)

lemma edges_fold_import_node: "edges (fold import_node ns g) = edges g"
  by (induction ns arbitrary: g) (simp_all add: import_node_def)

lemma nodes_fold_import_edge: "nodes (fold import_edge es g) = nodes g"
  by (induction es arbitrary: g) (simp_all add: import_edge_def)

lemma counter_fold_import_edge: "nodeIdCounter (fold import_edge es g) = nodeIdCounter g"
  by (induction es arbitrary: g) (simp_all add: import_edge_def)

lemma edges_fold_import_edge:
  "edges (fold import_edge es g) = fold (\<lambda>e. AList.update (edge_id e) (EdgeObj e)) es (edges g)"
  by (induction es arbitrary: g) (simp_all add: import_edge_def)

lemma nodes_fold_import_repository: "nodes (fold import_repository rs g) = nodes g"
  by (induction rs arbitrary: g) (simp_all add: import_repository_def)

lemma edges_fold_import_repository: "edges (fold import_repository rs g) = edges g"
  by (induction rs arbitrary: g) (simp_all add: import_repository_def)

lemma counter_fold_import_repository:
  "nodeIdCounter (fold import_repository rs g) = nodeIdCounter g"
  by (induction rs arbitrary: g) (simp_all add: import_repository_def)

lemma rebuild_nodes:
  assumes "distinct (map fst m)" "\<forall>k n. (k, n) \<in> set m \<longrightarrow> node_id n = k"
    "fst ` set acc \<inter> fst ` set m = {}"
  shows "fold (\<lambda>n. AList.update (node_id n) n) (map snd m) acc = acc @ m"
  using assms
proof (induction m arbitrary: acc)
  case Nil
  then show ?case by simp
next
  case (Cons p m)
  obtain k n where p: "p = (k, n)" by (cases p)
  from Cons.prems p have id: "node_id n = k" and fresh: "k \<notin> fst ` set acc" by auto
  have "k \<notin> fst ` set m"
    using Cons.prems(1) p by simp
  then have "fst ` set (acc @ [(k, n)]) \<inter> fst ` set m = {}"
    using Cons.prems(3) by auto
  then have "fold (\<lambda>n. AList.update (node_id n) n) (map snd m) (acc @ [(k, n)]) = (acc @ [(k, n)]) @ m"
    using Cons.prems(1,2) by (intro Cons.IH) simp_all
  then show ?case using p id fresh by (simp add: update_fresh)
qed

lemma import_export_nodes:
  assumes "graph_ok g"
  shows "nodes (import_graph h (export_graph g now)) = nodes g"
proof -
  have "fold (\<lambda>n. AList.update (node_id n) n) (map snd (nodes g)) [] = [] @ nodes g"
    using assms by (intro rebuild_nodes) (auto simp: graph_ok_def nodes_keyed_def)
  then show ?thesis
    by (simp add: import_graph_def nodes_fold_import_repository nodes_fold_import_edge
        nodes_fold_import_node export_nodes clear_def)
qed

lemma rebuild_edges:
  assumes "distinct (map edge_id es)" "fst ` set acc \<inter> edge_id ` set es = {}"
  shows "fold (\<lambda>e. AList.update (edge_id e) (EdgeObj e)) es acc
           = acc @ map (\<lambda>e. (edge_id e, EdgeObj e)) es"
  using assms
proof (induction es arbitrary: acc)
  case Nil
  then show ?case by simp
next
  case (Cons e es)
  have "fold (\<lambda>e. AList.update (edge_id e) (EdgeObj e)) es (acc @ [(edge_id e, EdgeObj e)])
          = (acc @ [(edge_id e, EdgeObj e)]) @ map (\<lambda>e. (edge_id e, EdgeObj e)) es"
    using Cons.prems by (intro Cons.IH) auto
  then show ?case using Cons.prems by (simp add: update_fresh)
qed

lemma edge_objects_mem: "e \<in> set (edge_objects m) \<Longrightarrow> \<exists>k. (k, EdgeObj e) \<in> set m"
  by (induction m rule: edge_objects.induct) auto

lemma edge_objects_distinct:
  assumes "distinct (map fst m)" "\<forall>k e. (k, EdgeObj e) \<in> set m \<longrightarrow> edge_id e = k"
  shows "distinct (map edge_id (edge_objects m))"
  using assms
proof (induction m rule: edge_objects.induct)
  case 1
  then show ?case by simp
next
  case (2 k e es)
  have "edge_id e \<notin> edge_id ` set (edge_objects es)"
  proof
    assume "edge_id e \<in> edge_id ` set (edge_objects es)"
    then obtain e' where e': "e' \<in> set (edge_objects es)" "edge_id e' = edge_id e" by auto
    then obtain k' where k': "(k', EdgeObj e') \<in> set es" using edge_objects_mem by blast
    with 2(3) have "edge_id e' = k'" by simp
    moreover from 2(3) have "edge_id e = k" by simp
    ultimately have "(k, EdgeObj e') \<in> set es" using k' e' by simp
    then have "k \<in> fst ` set es" by force
    with 2(2) show False by simp
  qed
  moreover have "distinct (map edge_id (edge_objects es))"
  proof (rule 2(1))
    show "distinct (map fst es)" using 2(2) by simp
    show "\<forall>k e. (k, EdgeObj e) \<in> set es \<longrightarrow> edge_id e = k" using 2(3) by (meson list.set_intros(2))
  qed
  ultimately show ?case by simp
next
  case (3 k xs es)
  have "distinct (map edge_id (edge_objects es))"
  proof (rule 3(1))
    show "distinct (map fst es)" using 3(2) by simp
    show "\<forall>k e. (k, EdgeObj e) \<in> set es \<longrightarrow> edge_id e = k" using 3(3) by (meson list.set_intros(2))
  qed
  then show ?case by simp
qed

lemma edge_objects_map_obj: "edge_objects (map (\<lambda>e. (f e, EdgeObj e)) es) = es"
  by (induction es) auto

lemma import_export_edges:
  assumes "graph_ok g"
  shows "edge_objects (edges (import_graph h (export_graph g now))) = edge_objects (edges g)"
proof -
  have "distinct (map edge_id (edge_objects (edges g)))"
    using assms by (intro edge_objects_distinct) (auto simp: graph_ok_def edges_keyed_def)
  then have "fold (\<lambda>e. AList.update (edge_id e) (EdgeObj e)) (edge_objects (edges g)) []
        = [] @ map (\<lambda>e. (edge_id e, EdgeObj e)) (edge_objects (edges g))"
    by (intro rebuild_edges) auto
  then show ?thesis
    by (simp add: import_graph_def edges_fold_import_repository edges_fold_import_edge
        edges_fold_import_node export_graph_def clear_def edge_objects_map_obj)
qed

lemma clear_any: "clear h = empty_graph"
  by (cases h) (simp add: clear_def empty_graph_def)

lemma import_replaces: "import_graph h d = import_graph empty_graph d"
  by (simp add: import_graph_def clear_any)


subsection \<open>Fresh ids after an import\<close>

lemma dropped_bits_small: "m < 2 ^ 53 \<Longrightarrow> dropped_bits m = 0"
  by (subst dropped_bits.simps) simp

lemma round_significand_small: "m < 2 ^ 53 \<Longrightarrow> round_significand m = m"
  by (simp add: round_significand_def dropped_bits_small)

lemma round_significand_top: "round_significand (2 ^ 53) = 2 ^ 53"
  by code_simp

lemma to_number_exact: "\<bar>v\<bar> \<le> 2 ^ 53 \<Longrightarrow> to_number v = v"
proof -
  assume v: "\<bar>v\<bar> \<le> 2 ^ 53"
  have "round_significand m = m" if "m \<le> 2 ^ 53" for m
    using that round_significand_small[of m] round_significand_top by (cases "m = 2 ^ 53") auto
  then show ?thesis using v by (auto simp: to_number_def)
qed

lemma digit_val_digit_char: "d < 10 \<Longrightarrow> digit_val (digit_char d) = Some d"
  by (simp add: digit_val_def digit_char_def Let_def)

lemma is_digit_digit_char: "d < 10 \<Longrightarrow> is_digit 10 (digit_char d)"
  by (simp add: is_digit_def digit_val_digit_char)

lemma not_space_digit_char: "d < 10 \<Longrightarrow> \<not> is_space (digit_char d)"
  by (simp add: is_space_def digit_char_def Let_def)

lemma of_char_digit_char: "d < 10 \<Longrightarrow> (of_char (digit_char d) :: nat) = 48 + d"
  by (simp add: digit_char_def)

lemma digit_char_plain:
  assumes "d < 10"
  shows "is_digit 10 (digit_char d) \<and> \<not> is_space (digit_char d) \<and> digit_char d \<noteq> CHR ''-''
    \<and> digit_char d \<noteq> CHR ''+'' \<and> digit_char d \<noteq> CHR ''x'' \<and> digit_char d \<noteq> CHR ''X''"
proof -
  have "(of_char (digit_char d) :: nat) \<noteq> of_char c"
    if "c \<in> {CHR ''-'', CHR ''+'', CHR ''x'', CHR ''X''}" for c
    using that assms by (auto simp: of_char_digit_char)
  then have "digit_char d \<noteq> c" if "c \<in> {CHR ''-'', CHR ''+'', CHR ''x'', CHR ''X''}" for c
    using that by blast
  then show ?thesis
    using assms by (simp add: is_digit_digit_char not_space_digit_char)
qed

lemma show_nat_digits: "c \<in> set (show_nat n) \<Longrightarrow> \<exists>d<10. c = digit_char d"
proof (induction n rule: show_nat.induct)
  case (1 n)
  show ?case
  proof (cases "n < 10")
    case True
    with 1(2) show ?thesis by (auto simp: show_nat.simps[of n])
  next
    case False
    with 1 show ?thesis
      by (subst (asm) (2) show_nat.simps) (auto intro: exI[of _ "n mod 10"])
  qed
qed

lemma show_nat_nonempty: "show_nat n \<noteq> []"
  by (subst show_nat.simps) simp

lemma digits_value_snoc:
  "digits_value r (ds @ [c]) = digits_value r ds * r + the (digit_val c)"
  by (simp add: digits_value_def)

lemma digits_value_show_nat: "digits_value 10 (show_nat n) = n"
proof (induction n rule: show_nat.induct)
  case (1 n)
  show ?case
  proof (cases "n < 10")
    case True
    then show ?thesis
      by (subst show_nat.simps) (simp add: digits_value_def digit_val_digit_char)
  next
    case False
    with 1 show ?thesis
      by (subst show_nat.simps) (simp add: digits_value_snoc digit_val_digit_char)
  qed
qed

lemma parseInt_digits:
  assumes "ds \<noteq> []" "\<forall>x \<in> set ds. \<exists>d<10. x = digit_char d"
  shows "parseInt ds = Some (to_number (int (digits_value 10 ds)))"
proof -
  have plain: "is_digit 10 x \<and> \<not> is_space x \<and> x \<noteq> CHR ''-'' \<and> x \<noteq> CHR ''+''
      \<and> x \<noteq> CHR ''x'' \<and> x \<noteq> CHR ''X''" if "x \<in> set ds" for x
  proof -
    from assms(2) that obtain d where "d < 10" "x = digit_char d" by blast
    then show ?thesis using digit_char_plain[of d] by simp
  qed
  obtain c cs where s: "ds = c # cs"
    using assms(1) by (cases ds) auto
  have c: "is_digit 10 c" "\<not> is_space c" "c \<noteq> CHR ''-''" "c \<noteq> CHR ''+''"
    using plain[of c] s by simp_all
  have sp: "dropWhile is_space ds = ds"
    using c s by simp
  have sign: "\<not> starts_with ds ''-''" "\<not> starts_with ds ''+''"
    using c s by simp_all
  have hex: "\<not> starts_with ds ''0x'' \<and> \<not> starts_with ds ''0X''"
  proof (cases cs)
    case Nil
    then show ?thesis using s by simp
  next
    case (Cons c' cs')
    then have "c' \<noteq> CHR ''x''" "c' \<noteq> CHR ''X''" using plain[of c'] s by simp_all
    then show ?thesis using s Cons by simp
  qed
  have tw: "takeWhile (is_digit 10) ds = ds"
    unfolding takeWhile_eq_all_conv using plain by blast
  show ?thesis
    unfolding parseInt_def Let_def sp using sign hex assms(1) by (simp add: tw)
qed

lemma parseInt_show_nat: "parseInt (show_nat n) = Some (to_number (int n))"
  using parseInt_digits[OF show_nat_nonempty, of n] show_nat_digits[of _ n]
  by (simp add: digits_value_show_nat)

lemma starts_with_append: "starts_with (p @ s) p"
  by (induction p) auto

lemma remove_first_prefix: "p \<noteq> [] \<Longrightarrow> remove_first p (p @ s) = s"
  by (cases p) (simp_all add: starts_with_append)


lemma graph_ok_with_node: "graph_ok g \<Longrightarrow> graph_ok (with_node ty d g)"
  unfolding with_node_def
  by (cases "addNode g ty d stamp") (auto intro: graph_ok_addNode)

lemma graph_ok_with_edge: "graph_ok g \<Longrightarrow> graph_ok (with_edge s t r g)"
  unfolding with_edge_def by (rule graph_ok_addEdge)

lemma graph_ok_sample: "graph_ok sample_graph"
  unfolding sample_graph_def
  by (intro graph_ok_with_node graph_ok_with_edge graph_ok_empty)

lemma graph_ok_cyclic: "graph_ok cyclic_graph"
  unfolding cyclic_graph_def
  by (intro graph_ok_with_node graph_ok_with_edge graph_ok_empty)

lemma repositories_fold_import_node: "repositories (fold import_node ns g) = repositories g"
  by (induction ns arbitrary: g) (simp_all add: import_node_def)

lemma repositories_fold_import_edge: "repositories (fold import_edge es g) = repositories g"
  by (induction es arbitrary: g) (simp_all add: import_edge_def)

lemma repositories_fold_import_repository:
  "repositories (fold import_repository rs g)
     = fold (\<lambda>r. AList.update (fst r) (snd r)) rs (repositories g)"
  by (induction rs arbitrary: g) (simp_all add: import_repository_def)

lemma rebuild_alist:
  assumes "distinct (map fst m)" "fst ` set acc \<inter> fst ` set m = {}"
  shows "fold (\<lambda>r. AList.update (fst r) (snd r)) m acc = acc @ m"
  using assms
proof (induction m arbitrary: acc)
  case Nil
  then show ?case by simp
next
  case (Cons p m)
  have fresh: "fst p \<notin> fst ` set acc" using Cons.prems(2) by auto
  have "fst p \<notin> fst ` set m" using Cons.prems(1) by simp
  then have "fst ` set (acc @ [p]) \<inter> fst ` set m = {}"
    using Cons.prems(2) by auto
  then have "fold (\<lambda>r. AList.update (fst r) (snd r)) m (acc @ [p]) = (acc @ [p]) @ m"
    using Cons.prems(1) by (intro Cons.IH) simp_all
  then show ?case using fresh by (simp add: update_fresh[of "fst p" acc "snd p"])
qed

lemma import_export_repositories:
  assumes "graph_ok g"
  shows "repositories (import_graph h (export_graph g now)) = repositories g"
proof -
  have "fold (\<lambda>r. AList.update (fst r) (snd r)) (repositories g) [] = [] @ repositories g"
    using assms by (intro rebuild_alist) (simp_all add: graph_ok_def)
  then show ?thesis
    by (simp add: import_graph_def repositories_fold_import_repository
        repositories_fold_import_edge repositories_fold_import_node export_graph_def clear_def)
qed

lemma counter_fold_import_node_mono: "nodeIdCounter g \<le> nodeIdCounter (fold import_node ns g)"
proof (induction ns arbitrary: g)
  case Nil
  show ?case by simp
next
  case (Cons n ns)
  have "nodeIdCounter g \<le> nodeIdCounter (import_node n g)"
    by (simp add: import_node_def)
  also have "\<dots> \<le> nodeIdCounter (fold import_node ns (import_node n g))"
    by (rule Cons.IH)
  finally show ?case by simp
qed

lemma counter_fold_import_node_ge:
  "n \<in> set ns \<Longrightarrow>
     or_zero (parseInt (remove_first ''node_'' (node_id n))) \<le> nodeIdCounter (fold import_node ns g)"
proof (induction ns arbitrary: g)
  case Nil
  then show ?case by simp
next
  case (Cons m ns)
  show ?case
  proof (cases "n = m")
    case True
    have "or_zero (parseInt (remove_first ''node_'' (node_id n))) \<le> nodeIdCounter (import_node m g)"
      using True by (simp add: import_node_def)
    also have "\<dots> \<le> nodeIdCounter (fold import_node ns (import_node m g))"
      by (rule counter_fold_import_node_mono)
    finally show ?thesis by simp
  next
    case False
    with Cons.prems have "n \<in> set ns" by simp
    then show ?thesis using Cons.IH by simp
  qed
qed

lemma keys_fold_import_node:
  "fst ` set (nodes (fold import_node ns g)) = fst ` set (nodes g) \<union> node_id ` set ns"
proof (induction ns arbitrary: g)
  case Nil
  show ?case by simp
next
  case (Cons n ns)
  have "fst ` set (nodes (import_node n g)) = insert (node_id n) (fst ` set (nodes g))"
    by (simp add: import_node_def dom_update)
  then show ?case using Cons.IH[of "import_node n g"] by auto
qed

lemma import_counter: "nodeIdCounter (import_graph h d) = nodeIdCounter (fold import_node (snap_nodes d) (clear h))"
  by (simp add: import_graph_def counter_fold_import_repository counter_fold_import_edge)

lemma import_keys: "fst ` set (nodes (import_graph h d)) = node_id ` set (snap_nodes d)"
  by (simp add: import_graph_def nodes_fold_import_repository nodes_fold_import_edge
      keys_fold_import_node clear_def)

lemma node_id_of_parse:
  assumes "0 < c" "c \<le> 2 ^ 53"
  shows "or_zero (parseInt (remove_first ''node_'' (node_id_of c))) = c"
proof -
  have "node_id_of c = ''node_'' @ show_nat (nat c)"
    using assms by (simp add: node_id_of_def show_int_def)
  then have "remove_first ''node_'' (node_id_of c) = show_nat (nat c)"
    using remove_first_prefix[of "''node_''" "show_nat (nat c)"] by simp
  then show ?thesis using assms by (simp add: parseInt_show_nat or_zero_def to_number_exact)
qed

lemma import_fresh_ids:
  assumes "0 < k" "nodeIdCounter (import_graph h d) + k \<le> 2 ^ 53"
  shows "\<not> map_has (nodes (import_graph h d)) (node_id_of (nodeIdCounter (import_graph h d) + k))"
proof
  let ?c = "nodeIdCounter (import_graph h d)"
  assume "map_has (nodes (import_graph h d)) (node_id_of (?c + k))"
  then have "node_id_of (?c + k) \<in> fst ` set (nodes (import_graph h d))"
    by (auto simp: map_has_def dest!: map_of_SomeD intro: rev_image_eqI)
  then obtain n where n: "n \<in> set (snap_nodes d)" "node_id n = node_id_of (?c + k)"
    unfolding import_keys by auto
  have c0: "0 \<le> ?c"
    using counter_fold_import_node_mono[of "clear h" "snap_nodes d"]
    by (simp add: import_counter clear_def)
  have "or_zero (parseInt (remove_first ''node_'' (node_id n))) \<le> ?c"
    unfolding import_counter using n(1) by (rule counter_fold_import_node_ge)
  moreover have "or_zero (parseInt (remove_first ''node_'' (node_id n))) = ?c + k"
    unfolding n(2) using c0 assms by (intro node_id_of_parse) simp_all
  ultimately show False using assms by simp
qed

lemma generateNodeId_exact:
  assumes "0 \<le> nodeIdCounter g" "nodeIdCounter g + 1 \<le> 2 ^ 53"
  shows "generateNodeId g = (g\<lparr>nodeIdCounter := nodeIdCounter g + 1\<rparr>, node_id_of (nodeIdCounter g + 1))"
proof -
  have "to_number (nodeIdCounter g + 1) = nodeIdCounter g + 1"
    using assms by (intro to_number_exact) simp
  then show ?thesis by (simp add: generateNodeId_def Let_def)
qed

lemma upt_from_one: "[1..<Suc (Suc n)] = 1 # map Suc [1..<Suc n]"
proof -
  have "[1..<Suc (Suc n)] = 1 # [Suc 1..<Suc (Suc n)]"
    by (rule upt_conv_Cons) simp
  also have "[Suc 1..<Suc (Suc n)] = map Suc [1..<Suc n]"
    by (rule map_Suc_upt[symmetric])
  finally show ?thesis .
qed

lemma generateNodeIds_exact:
  "0 \<le> nodeIdCounter g \<Longrightarrow> nodeIdCounter g + int n \<le> 2 ^ 53 \<Longrightarrow>
     generateNodeIds g n = map (\<lambda>k. node_id_of (nodeIdCounter g + int k)) [1..<Suc n]"
proof (induction n arbitrary: g)
  case 0
  show ?case by simp
next
  case (Suc n)
  let ?g1 = "g\<lparr>nodeIdCounter := nodeIdCounter g + 1\<rparr>"
  have g: "generateNodeId g = (?g1, node_id_of (nodeIdCounter g + 1))"
    using Suc.prems by (intro generateNodeId_exact) simp_all
  have c: "nodeIdCounter ?g1 + int k = nodeIdCounter g + int (Suc k)" for k
    by simp
  have "generateNodeIds ?g1 n = map (\<lambda>k. node_id_of (nodeIdCounter ?g1 + int k)) [1..<Suc n]"
    using Suc.prems by (intro Suc.IH) simp_all
  then have ih: "generateNodeIds ?g1 n = map (\<lambda>k. node_id_of (nodeIdCounter g + int (Suc k))) [1..<Suc n]"
    unfolding c .
  have "map (\<lambda>k. node_id_of (nodeIdCounter g + int k)) [1..<Suc (Suc n)]
      = node_id_of (nodeIdCounter g + 1) # map (\<lambda>k. node_id_of (nodeIdCounter g + int (Suc k))) [1..<Suc n]"
    unfolding upt_from_one by (simp add: comp_def del: upt_Suc)
  moreover have "generateNodeIds g (Suc n) = node_id_of (nodeIdCounter g + 1) # generateNodeIds ?g1 n"
    using g by simp
  ultimately show ?case using ih by (simp only:)
qed

lemma node_id_of_inj:
  assumes "0 < a" "a \<le> 2 ^ 53" "0 < b" "b \<le> 2 ^ 53" "node_id_of a = node_id_of b"
  shows "a = b"
proof -
  have "a = or_zero (parseInt (remove_first ''node_'' (node_id_of a)))"
    using node_id_of_parse[OF assms(1,2)] by (rule sym)
  also have "\<dots> = or_zero (parseInt (remove_first ''node_'' (node_id_of b)))"
    by (simp only: assms(5))
  also have "\<dots> = b"
    using assms(3,4) by (rule node_id_of_parse)
  finally show ?thesis .
qed

lemma generated_distinct:
  assumes "0 \<le> c" "c + int n \<le> 2 ^ 53"
  shows "distinct (map (\<lambda>k. node_id_of (c + int k)) [1..<Suc n])"
proof -
  have "inj_on (\<lambda>k. node_id_of (c + int k)) (set [1..<Suc n])"
  proof (rule inj_onI)
    fix x y
    assume x: "x \<in> set [1..<Suc n]" and y: "y \<in> set [1..<Suc n]"
      and e: "node_id_of (c + int x) = node_id_of (c + int y)"
    have "c + int x = c + int y"
      using assms x y by (intro node_id_of_inj[OF _ _ _ _ e]) auto
    then show "x = y" by simp
  qed
  then show ?thesis by (simp add: distinct_map del: upt_Suc)
qed

lemma import_counter_nonneg: "0 \<le> nodeIdCounter (import_graph h d)"
  using counter_fold_import_node_mono[of "clear h" "snap_nodes d"]
  by (simp add: import_counter clear_def)

lemma import_generated_fresh:
  assumes "nodeIdCounter (import_graph h d) + int n \<le> 2 ^ 53"
  shows "generateNodeIds (import_graph h d) n
           = map (\<lambda>k. node_id_of (nodeIdCounter (import_graph h d) + int k)) [1..<Suc n]
       \<and> distinct (generateNodeIds (import_graph h d) n)
       \<and> (\<forall>i \<in> set (generateNodeIds (import_graph h d) n). \<not> map_has (nodes (import_graph h d)) i)"
proof -
  let ?g = "import_graph h d"
  have e: "generateNodeIds ?g n = map (\<lambda>k. node_id_of (nodeIdCounter ?g + int k)) [1..<Suc n]"
    using import_counter_nonneg assms by (rule generateNodeIds_exact)
  have d: "distinct (generateNodeIds ?g n)"
    unfolding e using import_counter_nonneg assms by (rule generated_distinct)
  have "\<not> map_has (nodes ?g) i" if "i \<in> set (generateNodeIds ?g n)" for i
  proof -
    from that obtain k where k: "1 \<le> k" "k \<le> n" "i = node_id_of (nodeIdCounter ?g + int k)"
      unfolding e by auto
    have "\<not> map_has (nodes ?g) (node_id_of (nodeIdCounter ?g + int k))"
      using k(1,2) assms by (intro import_fresh_ids) simp_all
    then show ?thesis using k(3) by simp
  qed
  then show ?thesis using e d by blast
qed

text \<open>
  C5, amended: \<open>import(export())\<close> replaces whatever state the importing store had (the
  result is the one an empty store gets) with the nodes, edge objects and repositories
  of the exported one: the node count, the edge count and \<open>findNodesByType\<close> for every
  type are those of the exported store.  The ids that \<open>generateNodeId\<close> returns
  afterwards are \<open>node_\<close> followed by the restored counter plus 1, 2, ...; as long as
  that number is at most \<open>2 ^ 53\<close>, they differ from one another and none is the key
  of a restored node.
\<close>

theorem import_export_round_trip:
  assumes "graph_ok g"
  shows "(let g' = import_graph h (export_graph g now) in
          g' = import_graph empty_graph (export_graph g now)
        \<and> nodes g' = nodes g
        \<and> edge_objects (edges g') = edge_objects (edges g)
        \<and> repositories g' = repositories g
        \<and> getNodeCount g' = getNodeCount g
        \<and> getEdgeCount g' = getEdgeCount g
        \<and> (\<forall>ty. findNodesByType g' ty = findNodesByType g ty)
        \<and> (\<forall>k. 0 < k \<and> nodeIdCounter g' + k \<le> 2 ^ 53
               \<longrightarrow> \<not> map_has (nodes g') (node_id_of (nodeIdCounter g' + k)))
        \<and> (\<forall>n. nodeIdCounter g' + int n \<le> 2 ^ 53 \<longrightarrow>
               generateNodeIds g' n = map (\<lambda>k. node_id_of (nodeIdCounter g' + int k)) [1..<Suc n]
             \<and> distinct (generateNodeIds g' n)
             \<and> (\<forall>i \<in> set (generateNodeIds g' n). \<not> map_has (nodes g') i)))"
proof -
  let ?g' = "import_graph h (export_graph g now)"
  have n: "nodes ?g' = nodes g" using assms by (rule import_export_nodes)
  have e: "edge_objects (edges ?g') = edge_objects (edges g)" using assms by (rule import_export_edges)
  have r: "repositories ?g' = repositories g" using assms by (rule import_export_repositories)
  have "?g' = import_graph empty_graph (export_graph g now)" by (rule import_replaces)
  moreover have "getNodeCount ?g' = getNodeCount g" by (simp add: getNodeCount_def n)
  moreover have "getEdgeCount ?g' = getEdgeCount g" by (simp add: getEdgeCount_def e)
  moreover have "\<forall>ty. findNodesByType ?g' ty = findNodesByType g ty"
    by (simp add: findNodesByType_def n)
  moreover have "\<forall>k. 0 < k \<and> nodeIdCounter ?g' + k \<le> 2 ^ 53
      \<longrightarrow> \<not> map_has (nodes ?g') (node_id_of (nodeIdCounter ?g' + k))"
    using import_fresh_ids by blast
  moreover have "\<forall>n. nodeIdCounter ?g' + int n \<le> 2 ^ 53 \<longrightarrow>
               generateNodeIds ?g' n = map (\<lambda>k. node_id_of (nodeIdCounter ?g' + int k)) [1..<Suc n]
             \<and> distinct (generateNodeIds ?g' n)
             \<and> (\<forall>i \<in> set (generateNodeIds ?g' n). \<not> map_has (nodes ?g') i)"
    using import_generated_fresh by blast
  ultimately show ?thesis unfolding Let_def using n e r by blast
qed

theorem import_export_round_trip_witness:
  "graph_ok sample_graph
   \<and> getNodeCount (import_graph cyclic_graph (export_graph sample_graph stamp)) = 3
   \<and> getEdgeCount (import_graph cyclic_graph (export_graph sample_graph stamp)) = 2
   \<and> map node_id (findNodesByType (import_graph cyclic_graph (export_graph sample_graph stamp)) ''function'')
        = [''node_2'', ''node_3'']
   \<and> nodeIdCounter (import_graph cyclic_graph (export_graph sample_graph stamp)) = 3
   \<and> \<not> map_has (nodes (import_graph cyclic_graph (export_graph sample_graph stamp))) ''node_4''
   \<and> generateNodeIds (import_graph cyclic_graph (export_graph sample_graph stamp)) 2
        = [''node_4'', ''node_5'']
   \<and> \<not> map_has (nodes (import_graph cyclic_graph (export_graph sample_graph stamp))) ''node_5''"
proof -
  let ?g' = "import_graph cyclic_graph (export_graph sample_graph stamp)"
  note rt = import_export_round_trip[OF graph_ok_sample, of cyclic_graph stamp, unfolded Let_def]
  have rn: "getNodeCount ?g' = getNodeCount sample_graph" using rt by blast
  have re: "getEdgeCount ?g' = getEdgeCount sample_graph" using rt by blast
  have rf: "findNodesByType ?g' ''function'' = findNodesByType sample_graph ''function''"
    using rt by blast
  have c: "nodeIdCounter ?g' = 3" by code_simp
  have rk: "\<not> map_has (nodes ?g') (node_id_of (nodeIdCounter ?g' + 1))"
  proof -
    have "0 < (1::int) \<and> nodeIdCounter ?g' + 1 \<le> 2 ^ 53" unfolding c by simp
    then show ?thesis using rt by blast
  qed
  have gen: "generateNodeIds ?g' 2 = map (\<lambda>k. node_id_of (nodeIdCounter ?g' + int k)) [1..<Suc 2]
      \<and> (\<forall>i \<in> set (generateNodeIds ?g' 2). \<not> map_has (nodes ?g') i)"
  proof -
    have "nodeIdCounter ?g' + int 2 \<le> 2 ^ 53" unfolding c by simp
    then show ?thesis using rt by blast
  qed
  have "getNodeCount sample_graph = 3" by code_simp
  then have a: "getNodeCount ?g' = 3" unfolding rn .
  have "getEdgeCount sample_graph = 2" by code_simp
  then have b: "getEdgeCount ?g' = 2" unfolding re .
  have "map node_id (findNodesByType sample_graph ''function'') = [''node_2'', ''node_3'']"
    by code_simp
  then have f: "map node_id (findNodesByType ?g' ''function'') = [''node_2'', ''node_3'']"
    unfolding rf .
  have "node_id_of (3 + 1) = ''node_4''" by code_simp
  then have d: "\<not> map_has (nodes ?g') ''node_4''" using rk unfolding c by simp
  have "map (\<lambda>k. node_id_of (3 + int k)) [1..<Suc 2] = [''node_4'', ''node_5'']" by code_simp
  then have g2: "generateNodeIds ?g' 2 = [''node_4'', ''node_5'']" using gen unfolding c by simp
  then have d5: "\<not> map_has (nodes ?g') ''node_5''" using gen by simp
  show ?thesis using graph_ok_sample a b c f d g2 d5 by blast
qed

lemma graph_ok_big_id: "graph_ok big_id_graph"
  unfolding big_id_graph_def
  by (intro graph_ok_with_node graph_ok_empty)

lemma digit_chars:
  "digit_char 0 = CHR ''0''" "digit_char 1 = CHR ''1''" "digit_char 2 = CHR ''2''"
  "digit_char 3 = CHR ''3''" "digit_char 4 = CHR ''4''" "digit_char 5 = CHR ''5''"
  "digit_char 6 = CHR ''6''" "digit_char 7 = CHR ''7''" "digit_char 8 = CHR ''8''"
  "digit_char 9 = CHR ''9''" "digit_char (Suc 0) = CHR ''1''"
  by code_simp+

lemma show_nat_big: "show_nat 9007199254740992 = ''9007199254740992''"
  by (simp add: show_nat.simps digit_chars)

lemma node_id_of_big: "node_id_of (2 ^ 53) = ''node_9007199254740992''"
  by (simp add: node_id_of_def show_int_def show_nat_big)

lemma to_number_above: "to_number (2 ^ 53 + 1) = 2 ^ 53"
  by code_simp

lemma big_id_graph_value:
  "big_id_graph =
     \<lparr>nodes = [(''node_9007199254740992'',
                \<lparr>node_id = ''node_9007199254740992'', node_type = ''file'',
                 node_data = JObj [(''id'', JStr ''node_9007199254740992''), (''path'', JStr ''big.js'')],
                 node_timestamp = stamp\<rparr>)],
      edges = [], repositories = [], nodeIdCounter = 0, edgeIdCounter = 0\<rparr>"
  by code_simp

lemma big_id_import_nodes:
  "nodes (import_graph empty_graph (export_graph big_id_graph stamp)) = nodes big_id_graph"
  using graph_ok_big_id by (rule import_export_nodes)

lemma big_id_import_counter:
  "nodeIdCounter (import_graph empty_graph (export_graph big_id_graph stamp)) = 2 ^ 53"
proof -
  have "or_zero (parseInt (remove_first ''node_'' (node_id_of (2 ^ 53)))) = 2 ^ 53"
    by (rule node_id_of_parse) simp_all
  then have "or_zero (parseInt (remove_first ''node_'' ''node_9007199254740992'')) = 2 ^ 53"
    unfolding node_id_of_big .
  then show ?thesis
    unfolding big_id_graph_value
    by (simp add: import_graph_def export_graph_def import_node_def spread_node_def clear_def
        empty_graph_def)
qed

text \<open>
  The claim as written fails where the counter stops counting: a store whose one node
  has the id \<open>node_9007199254740992\<close> is restored with the counter \<open>2 ^ 53\<close>, the
  increment of \<open>generateNodeId\<close> rounds \<open>2 ^ 53 + 1\<close> back to \<open>2 ^ 53\<close>, and the id it
  returns is the restored node's.
\<close>

theorem import_fresh_id_counterexample:
  "nodeIdCounter (import_graph empty_graph (export_graph big_id_graph stamp)) = 2 ^ 53
   \<and> snd (generateNodeId (import_graph empty_graph (export_graph big_id_graph stamp)))
       = ''node_9007199254740992''
   \<and> map_has (nodes (import_graph empty_graph (export_graph big_id_graph stamp)))
       ''node_9007199254740992''"
proof -
  let ?g' = "import_graph empty_graph (export_graph big_id_graph stamp)"
  have "snd (generateNodeId ?g') = node_id_of (to_number (nodeIdCounter ?g' + 1))"
    by (simp add: generateNodeId_def Let_def)
  then have g: "snd (generateNodeId ?g') = ''node_9007199254740992''"
    unfolding big_id_import_counter to_number_above node_id_of_big .
  have "map_has (nodes big_id_graph) ''node_9007199254740992''"
    unfolding big_id_graph_value by (simp add: map_has_def)
  then have m: "map_has (nodes ?g') ''node_9007199254740992''"
    unfolding big_id_import_nodes .
  show ?thesis using big_id_import_counter g m by blast
qed

subsection \<open>Merging line ranges\<close>

lemma merge_loop_nonempty: "merge_loop slack lastR rs \<noteq> []"
  by (induction rs arbitrary: lastR) auto

lemma merge_loop_hd_start: "range_start (hd (merge_loop slack lastR rs)) = range_start lastR"
  by (induction rs arbitrary: lastR) auto

lemma merge_loop_gaps:
  "successively (\<lambda>a b. range_end a + slack < range_start b) (merge_loop slack lastR rs)"
proof (induction rs arbitrary: lastR)
  case Nil
  show ?case by simp
next
  case (Cons current rest)
  show ?case
  proof (cases "range_start current \<le> range_end lastR + slack")
    case True
    then show ?thesis using Cons.IH by simp
  next
    case False
    obtain m ms where m: "merge_loop slack current rest = m # ms"
      using merge_loop_nonempty[of slack current rest] by (cases "merge_loop slack current rest") auto
    have "range_start m = range_start current"
      using merge_loop_hd_start[of slack current rest] m by simp
    then show ?thesis
      using False Cons.IH[of current] m by (simp add: successively_Cons)
  qed
qed

lemma sort_key_idem: "sort_key f (sort_key f xs) = sort_key f xs"
  by (rule sort_key_id_if_sorted) simp

lemma merge_loop_sorted:
  "sorted (map range_start (lastR # rs)) \<Longrightarrow>
     sorted (map range_start (merge_loop slack lastR rs))
     \<and> (\<forall>m \<in> set (merge_loop slack lastR rs). range_start lastR \<le> range_start m)"
proof (induction rs arbitrary: lastR)
  case Nil
  show ?case by simp
next
  case (Cons current rest)
  show ?case
  proof (cases "range_start current \<le> range_end lastR + slack")
    case True
    have "sorted (map range_start (lastR\<lparr>range_end := max (range_end lastR) (range_end current)\<rparr> # rest))"
      using Cons.prems by simp
    from Cons.IH[OF this] show ?thesis using True by simp
  next
    case False
    have sc: "sorted (map range_start (current # rest))"
      using Cons.prems by simp
    have le: "range_start lastR \<le> range_start current"
      using Cons.prems by simp
    from Cons.IH[OF sc] have s: "sorted (map range_start (merge_loop slack current rest))"
      and b: "\<forall>m \<in> set (merge_loop slack current rest). range_start current \<le> range_start m"
      by blast+
    have "\<forall>m \<in> set (merge_loop slack current rest). range_start lastR \<le> range_start m"
      using b le by fastforce
    then show ?thesis using False s by simp
  qed
qed

lemma merge_loop_covers:
  "sorted (map range_start (lastR # rs)) \<Longrightarrow>
     \<forall>r \<in> set (lastR # rs). \<exists>m \<in> set (merge_loop slack lastR rs). within r m"
proof (induction rs arbitrary: lastR)
  case Nil
  show ?case by (simp add: within_def)
next
  case (Cons current rest)
  show ?case
  proof (cases "range_start current \<le> range_end lastR + slack")
    case True
    let ?l = "lastR\<lparr>range_end := max (range_end lastR) (range_end current)\<rparr>"
    have sl: "sorted (map range_start (?l # rest))"
      using Cons.prems by simp
    have le: "range_start lastR \<le> range_start current"
      using Cons.prems by simp
    have ih: "\<forall>r \<in> set (?l # rest). \<exists>m \<in> set (merge_loop slack ?l rest). within r m"
      by (rule Cons.IH[OF sl])
    then obtain m where m: "m \<in> set (merge_loop slack ?l rest)" "within ?l m"
      by auto
    have "within lastR m" "within current m"
      using m(2) le by (simp_all add: within_def)
    then show ?thesis using True ih m(1) by auto
  next
    case False
    have sc: "sorted (map range_start (current # rest))"
      using Cons.prems by simp
    have ih: "\<forall>r \<in> set (current # rest). \<exists>m \<in> set (merge_loop slack current rest). within r m"
      by (rule Cons.IH[OF sc])
    have "within lastR lastR" by (simp add: within_def)
    then show ?thesis using False ih by auto
  qed
qed

lemma merge_sorted_of_sorted:
  "sorted (map range_start (a # rest)) \<Longrightarrow> merge_sorted slack (a # rest) = merge_loop slack a rest"
  by (simp add: merge_sorted_def sort_key_id_if_sorted del: sort_key_simps)

lemma merge_sorted_coalesces: "coalesces slack (merge_sorted slack)"
proof -
  have 1: "merge_sorted slack [] = []" by (simp add: merge_sorted_def)
  have 2: "merge_sorted slack [a] = [a]" for a :: "'a line_range_scheme"
    by (simp add: merge_sorted_def)
  have 3: "merge_sorted slack xs = merge_sorted slack (sort_key range_start xs)" for xs :: "'a line_range_scheme list"
    by (simp add: merge_sorted_def sort_key_idem del: sort_key_simps)
  have 4: "merge_sorted slack (a # b # rest) =
              (if range_start b \<le> range_end a + slack
               then merge_sorted slack (a\<lparr>range_end := max (range_end a) (range_end b)\<rparr> # rest)
               else a # merge_sorted slack (b # rest))"
    if s: "sorted (map range_start (a # b # rest))" for a b :: "'a line_range_scheme" and rest
  proof -
    have s1: "sorted (map range_start (a\<lparr>range_end := max (range_end a) (range_end b)\<rparr> # rest))"
      using s by simp
    have s2: "sorted (map range_start (b # rest))" using s by simp
    show ?thesis
      unfolding merge_sorted_of_sorted[OF s] merge_sorted_of_sorted[OF s1] merge_sorted_of_sorted[OF s2]
      by simp
  qed
  show ?thesis unfolding coalesces_def using 1 2 3 4 by blast
qed

lemma mergeSections_merge_sorted: "mergeSections = merge_sorted 5"
  by (rule ext) (simp add: mergeSections_def merge_sorted_def)

lemma mergeRanges_merge_sorted: "(\<lambda>ranges. mergeRanges (sort_key range_start ranges)) = merge_sorted 1"
  by (rule ext) (simp add: mergeRanges_def merge_sorted_def)

lemma merge_sorted_gaps:
  "successively (\<lambda>x y. range_end x + slack < range_start y) (merge_sorted slack xs)"
  unfolding merge_sorted_def by (cases "sort_key range_start xs") (simp_all add: merge_loop_gaps)

lemma merge_sorted_sorted: "sorted (map range_start (merge_sorted slack xs))"
proof (cases "sort_key range_start xs")
  case Nil
  then show ?thesis by (simp add: merge_sorted_def)
next
  case (Cons first rest)
  have "sorted (map range_start (sort_key range_start xs))" by simp
  then have "sorted (map range_start (first # rest))" unfolding Cons .
  from merge_loop_sorted[OF this] show ?thesis by (simp add: merge_sorted_def Cons)
qed

lemma merge_sorted_covers: "\<forall>r \<in> set xs. \<exists>m \<in> set (merge_sorted slack xs). within r m"
proof (cases "sort_key range_start xs")
  case Nil
  then have "set (sort_key range_start xs) = {}" by simp
  then show ?thesis by simp
next
  case (Cons first rest)
  have "sorted (map range_start (sort_key range_start xs))" by simp
  then have s: "sorted (map range_start (first # rest))" unfolding Cons .
  have "set xs = set (first # rest)" using Cons set_sort[of range_start xs] by simp
  then show ?thesis using merge_loop_covers[OF s, of slack] by (simp add: merge_sorted_def Cons)
qed

lemma coalesces_unique_sorted:
  assumes f: "coalesces slack f" and g: "coalesces slack g"
  shows "length xs = n \<Longrightarrow> sorted (map range_start xs) \<Longrightarrow> f xs = g xs"
proof (induction n arbitrary: xs rule: less_induct)
  case (less n)
  show ?case
  proof (cases xs)
    case Nil
    then show ?thesis using f g by (simp add: coalesces_def)
  next
    case (Cons a ys)
    show ?thesis
    proof (cases ys)
      case Nil
      then show ?thesis using f g Cons by (simp add: coalesces_def)
    next
      case ys: (Cons b rest)
      have s: "sorted (map range_start (a # b # rest))" using less.prems Cons ys by simp
      have ff: "f (a # b # rest) =
              (if range_start b \<le> range_end a + slack
               then f (a\<lparr>range_end := max (range_end a) (range_end b)\<rparr> # rest)
               else a # f (b # rest))"
        using f s unfolding coalesces_def by blast
      have gg: "g (a # b # rest) =
              (if range_start b \<le> range_end a + slack
               then g (a\<lparr>range_end := max (range_end a) (range_end b)\<rparr> # rest)
               else a # g (b # rest))"
        using g s unfolding coalesces_def by blast
      have l: "length (b # rest) < n" "length (a\<lparr>range_end := max (range_end a) (range_end b)\<rparr> # rest) < n"
        using less.prems Cons ys by auto
      have s1: "sorted (map range_start (a\<lparr>range_end := max (range_end a) (range_end b)\<rparr> # rest))"
        using s by simp
      have s2: "sorted (map range_start (b # rest))" using s by simp
      have "f (b # rest) = g (b # rest)"
        by (rule less.IH[OF l(1) refl s2])
      moreover have "f (a\<lparr>range_end := max (range_end a) (range_end b)\<rparr> # rest)
          = g (a\<lparr>range_end := max (range_end a) (range_end b)\<rparr> # rest)"
        by (rule less.IH[OF l(2) refl s1])
      ultimately show ?thesis unfolding Cons ys ff gg by simp
    qed
  qed
qed

lemma coalesces_unique:
  assumes f: "coalesces slack f" and g: "coalesces slack g"
  shows "f = g"
proof (rule ext)
  fix xs
  have "f xs = f (sort_key range_start xs)" using f unfolding coalesces_def by blast
  also have "\<dots> = g (sort_key range_start xs)"
    by (rule coalesces_unique_sorted[OF f g refl]) simp
  also have "\<dots> = g xs" using g unfolding coalesces_def by metis
  finally show "f xs = g xs" .
qed

lemma mergeRanges_unsorted:
  "mergeRanges [\<lparr>range_start = 20, range_end = 25\<rparr>, \<lparr>range_start = 0, range_end = 5\<rparr>]
     = [\<lparr>range_start = 20, range_end = 25\<rparr>]"
  by (simp add: mergeRanges_def)

text \<open>
  C3, as the code has it.  \<open>mergeSections\<close> of the query engine sorts by start line and
  coalesces with slack 5: on ranges sorted by start it takes the next range into the last
  merged one exactly when its start is at most that one's end plus 5, on lists of any
  length (\<open>coalesces\<close>, which determines the function: \<open>coalesces_unique\<close>).
  \<open>mergeRanges\<close> of the context builder, on the ranges that \<open>extractRelevantSections\<close>
  has sorted by start line, does the same with 1 in place of 5.  The results are sorted
  by start, neighbouring results are more than the slack apart, every given range lies
  within a result, and either turns \<open>[(0,5), (4,10), (20,25)]\<close> into
  \<open>[(0,10), (20,25)]\<close>.
\<close>

theorem merge_slack:
  "coalesces 5 mergeSections
   \<and> coalesces 1 (\<lambda>ranges. mergeRanges (sort_key range_start ranges))
   \<and> sorted (map range_start (mergeSections sections))
   \<and> successively (\<lambda>x y. range_end x + 5 < range_start y) (mergeSections sections)
   \<and> (\<forall>r \<in> set sections. \<exists>m \<in> set (mergeSections sections). within r m)
   \<and> sorted (map range_start (mergeRanges (sort_key range_start ranges)))
   \<and> successively (\<lambda>x y. range_end x + 1 < range_start y) (mergeRanges (sort_key range_start ranges))
   \<and> (\<forall>r \<in> set ranges. \<exists>m \<in> set (mergeRanges (sort_key range_start ranges)). within r m)
   \<and> mergeSections
        [\<lparr>range_start = 0, range_end = 5, matchLine = 2\<rparr>,
         \<lparr>range_start = 4, range_end = 10, matchLine = 7\<rparr>,
         \<lparr>range_start = 20, range_end = 25, matchLine = 22\<rparr>]
       = [\<lparr>range_start = 0, range_end = 10, matchLine = 2\<rparr>,
          \<lparr>range_start = 20, range_end = 25, matchLine = 22\<rparr>]
   \<and> mergeRanges (sort_key range_start
        [\<lparr>range_start = 0, range_end = 5\<rparr>, \<lparr>range_start = 4, range_end = 10\<rparr>,
         \<lparr>range_start = 20, range_end = 25\<rparr>])
       = [\<lparr>range_start = 0, range_end = 10\<rparr>, \<lparr>range_start = 20, range_end = 25\<rparr>]"
proof -
  have r: "mergeRanges (sort_key range_start ranges) = merge_sorted 1 ranges"
    using mergeRanges_merge_sorted by metis
  have c1: "coalesces 1 (\<lambda>ranges :: line_range list. mergeRanges (sort_key range_start ranges))"
    unfolding mergeRanges_merge_sorted by (rule merge_sorted_coalesces)
  have c5: "coalesces 5 mergeSections"
    unfolding mergeSections_merge_sorted by (rule merge_sorted_coalesces)
  have e5: "mergeSections
        [\<lparr>range_start = 0, range_end = 5, matchLine = 2\<rparr>,
         \<lparr>range_start = 4, range_end = 10, matchLine = 7\<rparr>,
         \<lparr>range_start = 20, range_end = 25, matchLine = 22\<rparr>]
       = [\<lparr>range_start = 0, range_end = 10, matchLine = 2\<rparr>,
          \<lparr>range_start = 20, range_end = 25, matchLine = 22\<rparr>]"
    by (simp add: mergeSections_def)
  have e1: "mergeRanges (sort_key range_start
        [\<lparr>range_start = 0, range_end = 5\<rparr>, \<lparr>range_start = 4, range_end = 10\<rparr>,
         \<lparr>range_start = 20, range_end = 25\<rparr>])
       = [\<lparr>range_start = 0, range_end = 10\<rparr>, \<lparr>range_start = 20, range_end = 25\<rparr>]"
    by (simp add: mergeRanges_def)
  show ?thesis
    unfolding r
    using c1 c5 e5 e1 merge_sorted_sorted[of 5 sections] merge_sorted_gaps[of 5 sections]
      merge_sorted_covers[of sections 5] merge_sorted_sorted[of 1 ranges] merge_sorted_gaps[of 1 ranges]
      merge_sorted_covers[of ranges 1]
    unfolding mergeSections_merge_sorted r
    by blast
qed

theorem merge_slack_witness:
  "mergeSections
     [\<lparr>range_start = 0, range_end = 5, matchLine = 2\<rparr>, \<lparr>range_start = 8, range_end = 10, matchLine = 9\<rparr>,
      \<lparr>range_start = 16, range_end = 18, matchLine = 17\<rparr>]
     = [\<lparr>range_start = 0, range_end = 10, matchLine = 2\<rparr>, \<lparr>range_start = 16, range_end = 18, matchLine = 17\<rparr>]
   \<and> (\<exists>m \<in> set (mergeSections
          [\<lparr>range_start = 0, range_end = 5, matchLine = 2\<rparr>, \<lparr>range_start = 8, range_end = 10, matchLine = 9\<rparr>,
           \<lparr>range_start = 16, range_end = 18, matchLine = 17\<rparr>]).
          within \<lparr>range_start = 8, range_end = 10, matchLine = 9\<rparr> m)
   \<and> mergeRanges (sort_key range_start
        [\<lparr>range_start = 12, range_end = 14\<rparr>, \<lparr>range_start = 0, range_end = 5\<rparr>,
         \<lparr>range_start = 6, range_end = 10\<rparr>])
     = [\<lparr>range_start = 0, range_end = 10\<rparr>, \<lparr>range_start = 12, range_end = 14\<rparr>]
   \<and> (\<exists>m \<in> set (mergeRanges (sort_key range_start
          [\<lparr>range_start = 12, range_end = 14\<rparr>, \<lparr>range_start = 0, range_end = 5\<rparr>,
           \<lparr>range_start = 6, range_end = 10\<rparr>])).
          within \<lparr>range_start = 6, range_end = 10\<rparr> m)"
proof -
  let ?S = "[\<lparr>range_start = 0, range_end = 5, matchLine = 2\<rparr>, \<lparr>range_start = 8, range_end = 10, matchLine = 9\<rparr>,
      \<lparr>range_start = 16, range_end = 18, matchLine = 17\<rparr>]"
  let ?R = "[\<lparr>range_start = 12, range_end = 14\<rparr>, \<lparr>range_start = 0, range_end = 5\<rparr>,
         \<lparr>range_start = 6, range_end = 10\<rparr>]"
  note m = merge_slack[of ?S ?R]
  have c5: "coalesces 5 mergeSections"
    and c1: "coalesces 1 (\<lambda>ranges :: line_range list. mergeRanges (sort_key range_start ranges))"
    and v5: "\<forall>r \<in> set ?S. \<exists>m \<in> set (mergeSections ?S). within r m"
    and v1: "\<forall>r \<in> set ?R. \<exists>m \<in> set (mergeRanges (sort_key range_start ?R)). within r m"
    using m by blast+
  have a: "mergeSections (a # b # rest) =
              (if range_start b \<le> range_end a + 5
               then mergeSections (a\<lparr>range_end := max (range_end a) (range_end b)\<rparr> # rest)
               else a # mergeSections (b # rest))"
    if "sorted (map range_start (a # b # rest))" for a b rest
    using c5 that unfolding coalesces_def by blast
  have a1: "mergeSections [a] = [a]" for a
    using c5 unfolding coalesces_def by blast
  have b: "mergeRanges (sort_key range_start (a # b # rest)) =
              (if range_start b \<le> range_end a + 1
               then mergeRanges (sort_key range_start (a\<lparr>range_end := max (range_end a) (range_end b)\<rparr> # rest))
               else a # mergeRanges (sort_key range_start (b # rest)))"
    if "sorted (map range_start (a # b # rest))" for a b :: line_range and rest
    using c1 that unfolding coalesces_def by blast
  have b1: "mergeRanges (sort_key range_start [a]) = [a]" for a :: line_range
    using c1 unfolding coalesces_def by blast
  have b0: "mergeRanges (sort_key range_start xs) = mergeRanges (sort_key range_start (sort_key range_start xs))"
    for xs :: "line_range list"
    using c1 unfolding coalesces_def by blast
  have e5: "mergeSections ?S
     = [\<lparr>range_start = 0, range_end = 10, matchLine = 2\<rparr>, \<lparr>range_start = 16, range_end = 18, matchLine = 17\<rparr>]"
    by (simp add: a a1)
  have sr: "sort_key range_start ?R = [\<lparr>range_start = 0, range_end = 5\<rparr>,
         \<lparr>range_start = 6, range_end = 10\<rparr>, \<lparr>range_start = 12, range_end = 14\<rparr>]"
    by simp
  have e1: "mergeRanges (sort_key range_start ?R)
     = [\<lparr>range_start = 0, range_end = 10\<rparr>, \<lparr>range_start = 12, range_end = 14\<rparr>]"
  proof -
    have "mergeRanges (sort_key range_start ?R)
        = mergeRanges (sort_key range_start (sort_key range_start ?R))"
      by (rule b0)
    also have "\<dots> = mergeRanges (sort_key range_start [\<lparr>range_start = 0, range_end = 5\<rparr>,
         \<lparr>range_start = 6, range_end = 10\<rparr>, \<lparr>range_start = 12, range_end = 14\<rparr>])"
      by (simp only: sr)
    also have "\<dots> = [\<lparr>range_start = 0, range_end = 10\<rparr>, \<lparr>range_start = 12, range_end = 14\<rparr>]"
      by (simp add: b b1 del: sort_key_simps)
    finally show ?thesis .
  qed
  have w5: "\<exists>m \<in> set (mergeSections ?S). within \<lparr>range_start = 8, range_end = 10, matchLine = 9\<rparr> m"
    using v5 by simp
  have w1: "\<exists>m \<in> set (mergeRanges (sort_key range_start ?R)). within \<lparr>range_start = 6, range_end = 10\<rparr> m"
    using v1 by simp
  show ?thesis using e5 e1 w5 w1 by blast
qed

text \<open>
  The claim as written fails for the context builder's merge: \<open>(8,10)\<close> starts within 5
  lines of the end of \<open>(0,5)\<close> and is not coalesced.
\<close>

theorem merge_ranges_slack_counterexample:
  "mergeRanges (sort_key range_start
      [\<lparr>range_start = 0, range_end = 5\<rparr>, \<lparr>range_start = 8, range_end = 10\<rparr>])
     = [\<lparr>range_start = 0, range_end = 5\<rparr>, \<lparr>range_start = 8, range_end = 10\<rparr>]"
  by (simp add: mergeRanges_def)

subsection \<open>Searching\<close>

lemma atoms_match_lit: "atoms_match (map Lit q) s = starts_with s q"
  by (induction s q rule: starts_with.induct) auto

lemma match_at_lit: "match_at (map Lit q) s i = whole_word_at q s i"
  by (simp add: match_at_def whole_word_at_def atoms_match_lit)

lemma count_matches_lit: "count_matches (map Lit q) s i = word_hits q s i"
proof (induction q s i rule: word_hits.induct)
  case (1 q s i)
  show ?case
  proof (cases "length s < i")
    case True
    then show ?thesis
      by (subst count_matches.simps, subst word_hits.simps) simp
  next
    case False
    show ?thesis
    proof (cases "whole_word_at q s i")
      case True
      with False 1(1) show ?thesis
        by (subst count_matches.simps, subst word_hits.simps) (simp add: match_at_lit)
    next
      case no: False
      with False 1(2) show ?thesis
        by (subst count_matches.simps, subst word_hits.simps) (simp add: match_at_lit)
    qed
  qed
qed

lemma plain_no_dot: "plain_query q \<Longrightarrow> c \<in> set q \<Longrightarrow> c \<noteq> CHR ''.''"
  by (auto simp: plain_query_def syntax_char_def)

lemma compile_plain: "plain_query q \<Longrightarrow> compile_query q = Inr (map Lit q)"
proof -
  assume p: "plain_query q"
  then have "\<forall>c \<in> set q. \<not> syntax_char c \<or> c = CHR ''.''"
    by (simp add: plain_query_def)
  moreover have "map (\<lambda>c. if c = CHR ''.'' then AnyChar else Lit c) q = map Lit q"
    using plain_no_dot[OF p] by (intro map_cong) auto
  ultimately show ?thesis by (simp add: compile_query_def)
qed

lemma exact_matches_plain:
  "plain_query q \<Longrightarrow> exact_matches q s = Inr (word_hits q s 0)"
  by (simp add: exact_matches_def compile_plain count_matches_lit)

lemma node_relevance_plain:
  "plain_query (toLowerCase query) \<Longrightarrow>
     node_relevance (toLowerCase query) n = Inr (amended_relevance query n)"
  by (simp add: node_relevance_def amended_relevance_def Let_def exact_matches_plain)

lemma score_nodes_plain:
  assumes "plain_query (toLowerCase query)"
  shows "score_nodes (toLowerCase query) ns =
     Inr (map (\<lambda>n. \<lparr>scored_node = n, relevance = amended_relevance query n\<rparr>)
            (filter (\<lambda>n. 0 < amended_relevance query n) ns))"
  by (induction ns) (simp_all add: node_relevance_plain[OF assms])

lemma searchNodes_plain:
  assumes "plain_query (toLowerCase query)"
  shows "searchNodes g query =
     Inr (map scored_node (sort_key (\<lambda>r. - relevance r) (candidates g query)))"
  by (simp add: searchNodes_def candidates_def score_nodes_plain[OF assms])

lemma sorted_descending:
  "sorted (map (\<lambda>r. - relevance r) rs) \<Longrightarrow> sorted_wrt (\<lambda>a b. relevance b \<le> relevance a) rs"
  by (induction rs) auto

text \<open>
  C4, amended: for a query without syntax characters of the regular expression language,
  \<open>searchNodes\<close> returns the nodes of positive relevance, where the relevance is 2 if the
  type contains the lowercased query, plus, for a node with data whose lowercased
  serialization contains the lowercased query, 1 and 3 for each whole-word occurrence in
  it; the result is in descending order of relevance, and the nodes of one relevance
  stand in insertion order.
\<close>

theorem searchNodes_relevance:
  assumes "plain_query (toLowerCase query)"
  shows "\<exists>rs. searchNodes g query = Inr (map scored_node rs)
           \<and> sorted_wrt (\<lambda>a b. relevance b \<le> relevance a) rs
           \<and> (\<forall>k. filter (\<lambda>r. relevance r = k) rs
                     = filter (\<lambda>r. relevance r = k) (candidates g query))"
proof -
  let ?rs = "sort_key (\<lambda>r. - relevance r) (candidates g query)"
  have "sorted (map (\<lambda>r. - relevance r) ?rs)" by simp
  then have d: "sorted_wrt (\<lambda>a b. relevance b \<le> relevance a) ?rs"
    by (rule sorted_descending)
  have s: "filter (\<lambda>r. relevance r = k) ?rs = filter (\<lambda>r. relevance r = k) (candidates g query)" for k
    using sort_key_stable[of "\<lambda>r. - relevance r" "- k" "candidates g query"] by simp
  show ?thesis
    using searchNodes_plain[OF assms, of g] d s by blast
qed

lemma session_graph_value:
  "session_graph =
     \<lparr>nodes = [(''node_1'', \<lparr>node_id = ''node_1'', node_type = ''class'',
                  node_data = session_data, node_timestamp = stamp\<rparr>)],
      edges = [], repositories = [], nodeIdCounter = 1, edgeIdCounter = 0\<rparr>"
  by code_simp

theorem searchNodes_relevance_witness:
  "plain_query (toLowerCase ''Session'')
   \<and> searchNodes session_graph ''Session''
       = Inr [\<lparr>node_id = ''node_1'', node_type = ''class'',
               node_data = session_data, node_timestamp = stamp\<rparr>]
   \<and> amended_relevance ''Session''
        \<lparr>node_id = ''node_1'', node_type = ''class'',
         node_data = session_data, node_timestamp = stamp\<rparr> = 4"
proof -
  have p: "plain_query (toLowerCase ''Session'')" by code_simp
  have a: "amended_relevance ''Session''
        \<lparr>node_id = ''node_1'', node_type = ''class'',
         node_data = session_data, node_timestamp = stamp\<rparr> = 4" by code_simp
  from searchNodes_relevance[OF p, of session_graph] obtain rs :: "scored list" where
    rs: "searchNodes session_graph ''Session'' = Inr (map scored_node rs)" by blast
  have "searchNodes session_graph ''Session''
       = Inr [\<lparr>node_id = ''node_1'', node_type = ''class'',
               node_data = session_data, node_timestamp = stamp\<rparr>]" by code_simp
  with rs p a show ?thesis by simp
qed

text \<open>
  The claim as written fails: the query \<open>session\<close> does not occur in the serialized
  data \<open>{"name":"Session",...}\<close> nor in the type \<open>class\<close>, so the claimed relevance is 0,
  and yet the node is returned, with relevance 4.
\<close>

theorem searchNodes_case_counterexample:
  "searchNodes session_graph ''session''
     = Inr [\<lparr>node_id = ''node_1'', node_type = ''class'',
             node_data = session_data, node_timestamp = stamp\<rparr>]
   \<and> node_relevance ''session''
        \<lparr>node_id = ''node_1'', node_type = ''class'',
         node_data = session_data, node_timestamp = stamp\<rparr> = Inr 4
   \<and> claimed_relevance ''session''
        \<lparr>node_id = ''node_1'', node_type = ''class'',
         node_data = session_data, node_timestamp = stamp\<rparr> = 0"
  by code_simp

text \<open>
  C8: \<open>searchNodes\<close> puts the query into a regular expression unescaped.  On the
  sample store, whose file text contains \<open>(\<close>, the query \<open>(\<close> makes
  \<open>new RegExp("\\b(\\b", "g")\<close> throw a \<open>SyntaxError\<close>, and so does \<open>login(\<close> given to
  \<open>getContext\<close>.
\<close>

theorem searchNodes_metacharacter_throws:
  "searchNodes sample_graph ''('' = Inl SyntaxError
   \<and> getContext sample_graph ''login('' default_options = Inl SyntaxError"
  by code_simp

text \<open>A query that no node's type or data contains builds no expression and returns nothing.\<close>

lemma score_nodes_no_match:
  assumes "\<forall>n \<in> set ns. \<not> str_includes (node_type n) q
     \<and> \<not> (truthy (node_data n) \<and> str_includes (toLowerCase (stringify (node_data n))) q)"
  shows "score_nodes q ns = Inr []"
  using assms by (induction ns) (auto simp: node_relevance_def Let_def)

lemma searchNodes_no_match:
  assumes "\<forall>n \<in> set (map snd (nodes g)). \<not> str_includes (node_type n) (toLowerCase query)
     \<and> \<not> (truthy (node_data n)
          \<and> str_includes (toLowerCase (stringify (node_data n))) (toLowerCase query))"
  shows "searchNodes g query = Inr []"
  using score_nodes_no_match[OF assms] by (simp add: searchNodes_def)

text \<open>
  C1: with \<open>includeFullFiles = false\<close> a file longer than \<open>maxCodeLength\<close> goes through
  \<open>extractRelevantSections\<close>, and \<open>findFunctionEnd\<close> reads the undeclared \<open>fileData\<close> as
  soon as a function does not close its braces on its first line: \<open>getContext\<close> throws a
  \<open>ReferenceError\<close> on the sample store (its file has 153 characters, the budget is 50).
\<close>

theorem getContext_sections_throw:
  "getContext sample_graph ''''
     (default_options\<lparr>opt_includeFullFiles := False, opt_maxCodeLength := 50\<rparr>)
     = Inl (ReferenceError ''fileData'')"
  by code_simp

lemma findFunctionEnd_open_line:
  assumes "0 \<le> i" "i < int (length lines)" "scan_braces (lines ! nat i) 0 False \<noteq> None"
  shows "findFunctionEnd lines i = Inl (ReferenceError ''fileData'')"
  using assms by (auto simp: findFunctionEnd_def split: option.splits)

subsection \<open>Ranking\<close>

lemma starts_with_iff: "starts_with s p \<longleftrightarrow> (\<exists>b. s = p @ b)"
  by (induction s p rule: starts_with.induct) auto

lemma str_includes_iff: "str_includes s p \<longleftrightarrow> (\<exists>a b. s = a @ p @ b)"
proof (induction s)
  case Nil
  show ?case by auto
next
  case (Cons c cs)
  show ?case
  proof
    assume "str_includes (c # cs) p"
    then consider "starts_with (c # cs) p" | "str_includes cs p" by auto
    then show "\<exists>a b. c # cs = a @ p @ b"
    proof cases
      case 1
      then obtain b where "c # cs = p @ b" using starts_with_iff by blast
      then have "c # cs = [] @ p @ b" by simp
      then show ?thesis by blast
    next
      case 2
      then obtain a b where "cs = a @ p @ b" using Cons.IH by blast
      then have "c # cs = (c # a) @ p @ b" by simp
      then show ?thesis by blast
    qed
  next
    assume "\<exists>a b. c # cs = a @ p @ b"
    then obtain a b where ab: "c # cs = a @ p @ b" by blast
    show "str_includes (c # cs) p"
    proof (cases a)
      case Nil
      then have "starts_with (c # cs) p" using ab starts_with_iff by auto
      then show ?thesis by simp
    next
      case (Cons a' as)
      then have "cs = as @ p @ b" using ab by simp
      then have "str_includes cs p" using Cons.IH by blast
      then show ?thesis by simp
    qed
  qed
qed

lemma str_includes_mid: "str_includes (a @ p @ b) p"
  using str_includes_iff by blast

lemma str_includes_trans:
  assumes "str_includes s t" "str_includes t p"
  shows "str_includes s p"
proof -
  from assms(1) obtain a b where 1: "s = a @ t @ b"
    unfolding str_includes_iff by (elim exE)
  from assms(2) obtain c d where 2: "t = c @ p @ d"
    unfolding str_includes_iff by (elim exE)
  have "s = (a @ c) @ p @ (d @ b)" unfolding 1 2 by simp
  then show ?thesis unfolding str_includes_iff by (intro exI)
qed

lemma str_includes_lower:
  "str_includes s p \<Longrightarrow> str_includes (toLowerCase s) (toLowerCase p)"
proof -
  assume "str_includes s p"
  then obtain a b where "s = a @ p @ b" using str_includes_iff by blast
  then have "toLowerCase s = toLowerCase a @ toLowerCase p @ toLowerCase b"
    by (simp add: toLowerCase_def)
  then show ?thesis using str_includes_iff by blast
qed

lemma join_member: "x \<in> set xs \<Longrightarrow> str_includes (join sep xs) x"
proof (induction sep xs rule: join.induct)
  case (1 sep)
  then show ?case by simp
next
  case (2 sep y)
  then have "join sep [y] = [] @ x @ []" by simp
  then show ?case using str_includes_iff by blast
next
  case (3 sep y z zs)
  show ?case
  proof (cases "x = y")
    case True
    then have "join sep (y # z # zs) = [] @ x @ (sep @ join sep (z # zs))" by simp
    then show ?thesis using str_includes_iff by blast
  next
    case False
    with 3 have "str_includes (join sep (z # zs)) x" by simp
    then obtain a b where "join sep (z # zs) = a @ x @ b" using str_includes_iff by blast
    then have "join sep (y # z # zs) = (y @ sep @ a) @ x @ b" by simp
    then show ?thesis using str_includes_iff by blast
  qed
qed

lemma stringify_member:
  assumes "(k, v) \<in> set kvs"
  shows "str_includes (stringify (JObj kvs)) (stringify v)"
proof -
  let ?f = "\<lambda>kv. quote (fst kv) @ '':'' @ stringify (snd kv)"
  have "?f (k, v) \<in> ?f ` set kvs" using assms by (rule imageI)
  then have "?f (k, v) \<in> set (map ?f kvs)" by simp
  then have "str_includes (join '','' (map ?f kvs)) (?f (k, v))" by (rule join_member)
  moreover have "str_includes (?f (k, v)) (stringify v)"
    using str_includes_mid[of "quote k @ '':''" "stringify v" "[]"] by simp
  ultimately have "str_includes (join '','' (map ?f kvs)) (stringify v)"
    by (rule str_includes_trans)
  then obtain a b where "join '','' (map ?f kvs) = a @ stringify v @ b"
    using str_includes_iff by blast
  then have "stringify (JObj kvs) = (''{'' @ a) @ stringify v @ (b @ ''}'')" by simp
  then show ?thesis using str_includes_iff by blast
qed

lemma quote_plain: "json_plain s \<Longrightarrow> quote s = CHR 0x22 # s @ [CHR 0x22]"
proof -
  assume "json_plain s"
  then have "concat (map escape_char s) = s"
    by (induction s) (simp_all add: json_plain_def)
  then show ?thesis by (simp add: quote_def)
qed

lemma lower_char_plain: "escape_char (lower_char c) = [lower_char c] \<Longrightarrow> escape_char c = [c]"
proof (cases "65 \<le> (of_char c :: nat) \<and> (of_char c :: nat) \<le> 90")
  case True
  then show ?thesis by (auto simp: escape_char_def Let_def)
next
  case False
  then have "lower_char c = c" by (auto simp: lower_char_def Let_def)
  then show "escape_char (lower_char c) = [lower_char c] \<Longrightarrow> escape_char c = [c]" by simp
qed

lemma json_plain_lower: "json_plain (toLowerCase s) \<Longrightarrow> json_plain s"
  by (auto simp: json_plain_def toLowerCase_def intro: lower_char_plain)

lemma node_string_has_name:
  assumes "get_prop (node_data n) ''name'' = Some (JStr nm)" "json_plain (toLowerCase nm)"
  shows "str_includes (toLowerCase (stringify (node_json n))) (toLowerCase nm)"
proof -
  obtain kvs where d: "node_data n = JObj kvs"
    using assms(1) by (cases "node_data n") auto
  then have "(''name'', JStr nm) \<in> set kvs"
    using assms(1) by (auto dest: map_of_SomeD)
  then have "str_includes (stringify (node_data n)) (stringify (JStr nm))"
    unfolding d by (rule stringify_member)
  moreover have "str_includes (stringify (JStr nm)) nm"
    using quote_plain[OF json_plain_lower[OF assms(2)]] str_includes_mid[of "[CHR 0x22]" nm "[CHR 0x22]"]
    by simp
  moreover have "str_includes (stringify (node_json n)) (stringify (node_data n))"
    unfolding node_json_def by (rule stringify_member[of "''data''"]) simp
  ultimately have "str_includes (stringify (node_json n)) nm"
    using str_includes_trans by blast
  then show ?thesis by (rule str_includes_lower)
qed

lemma str_includes_nonempty: "str_includes s p \<Longrightarrow> p \<noteq> [] \<Longrightarrow> s \<noteq> []"
  by (cases s) auto

lemma keyword_relevance_named:
  assumes "get_prop (node_data n) ''name'' = Some (JStr nm)"
  shows "\<exists>r. keyword_relevance n s kw = Inr r"
  using assms by (simp add: keyword_relevance_def Let_def)

lemma relevance_loop_acc:
  assumes "get_prop (node_data n) ''name'' = Some (JStr nm)"
  shows "\<exists>r. relevance_loop n s kws 0 = Inr r \<and> (\<forall>acc. relevance_loop n s kws acc = Inr (acc + r))"
proof (induction kws)
  case Nil
  show ?case by simp
next
  case (Cons kw kws)
  obtain r where r: "keyword_relevance n s kw = Inr r"
    using keyword_relevance_named[OF assms] by blast
  obtain t where t: "\<forall>acc. relevance_loop n s kws acc = Inr (acc + t)"
    using Cons.IH by blast
  have "\<forall>acc. relevance_loop n s (kw # kws) acc = Inr (acc + (r + t))"
    using r t by simp
  then show ?case by (metis add_0)
qed

lemma relevance_loop_append:
  assumes "get_prop (node_data n) ''name'' = Some (JStr nm)"
    and "relevance_loop n s xs 0 = Inr rx" "relevance_loop n s ys 0 = Inr ry"
  shows "relevance_loop n s (xs @ ys) 0 = Inr (rx + ry)"
proof -
  have g: "relevance_loop n s (xs @ ys) acc = (case relevance_loop n s xs acc of Inl e \<Rightarrow> Inl e
      | Inr r \<Rightarrow> relevance_loop n s ys r)" for acc
    by (induction xs arbitrary: acc) (auto split: sum.splits)
  obtain t where t: "\<forall>acc. relevance_loop n s ys acc = Inr (acc + t)" "relevance_loop n s ys 0 = Inr t"
    using relevance_loop_acc[OF assms(1), of s ys] by blast
  then have "t = ry" using assms(3) by simp
  then show ?thesis using g[of 0] assms(2) t(1) by simp
qed

lemma calculateRelevance_append:
  assumes "get_prop (node_data n) ''name'' = Some (JStr nm)"
    and "calculateRelevance n xs = Inr rx" "calculateRelevance n ys = Inr ry"
  shows "calculateRelevance n (xs @ ys) = Inr (rx + ry)"
  using assms unfolding calculateRelevance_def by (rule relevance_loop_append)

lemma calculateRelevance_named:
  assumes "get_prop (node_data n) ''name'' = Some (JStr nm)"
  shows "\<exists>r. calculateRelevance n kws = Inr r"
  unfolding calculateRelevance_def using relevance_loop_acc[OF assms] by blast

lemma calculateRelevance_single:
  assumes "get_prop (node_data n) ''name'' = Some (JStr nm)"
  shows "calculateRelevance n [kw] = Inr (keyword_score n kw)"
  using calculateRelevance_named[OF assms, of "[kw]"] by (auto simp: keyword_score_def)

lemma calculateRelevance_dominated:
  assumes a: "get_prop (node_data a) ''name'' = Some (JStr na)"
    and b: "get_prop (node_data b) ''name'' = Some (JStr nb)"
    and le: "\<forall>other \<in> set kws. keyword_score b other \<le> keyword_score a other"
  shows "\<exists>ra rb. calculateRelevance a kws = Inr ra \<and> calculateRelevance b kws = Inr rb \<and> rb \<le> ra"
  using le
proof (induction kws)
  case Nil
  show ?case by (simp add: calculateRelevance_def)
next
  case (Cons kw kws)
  then obtain ra rb where r: "calculateRelevance a kws = Inr ra" "calculateRelevance b kws = Inr rb" "rb \<le> ra"
    by auto
  have "calculateRelevance a ([kw] @ kws) = Inr (keyword_score a kw + ra)"
    using a calculateRelevance_single[OF a] r(1) by (rule calculateRelevance_append)
  moreover have "calculateRelevance b ([kw] @ kws) = Inr (keyword_score b kw + rb)"
    using b calculateRelevance_single[OF b] r(2) by (rule calculateRelevance_append)
  moreover have "keyword_score b kw \<le> keyword_score a kw" using Cons.prems by simp
  ultimately show ?case using r(3) by simp
qed

lemma exact_single:
  assumes "original kw \<noteq> []" "json_plain (original kw)"
    and "get_prop (node_data a) ''name'' = Some (JStr na)" "toLowerCase na = original kw"
  shows "7 \<le> keyword_score a kw"
proof -
  have ta: "truthy (node_data a)" using assms(3) by (cases "node_data a") auto
  have na: "na \<noteq> []" using assms(1,4) by (auto simp: toLowerCase_def)
  have inc: "str_includes (toLowerCase (stringify (node_json a))) (original kw)"
    using node_string_has_name[OF assms(3)] assms(2,4) by simp
  let ?sa = "if str_includes (toLowerCase (stringify (node_json a))) (stemmed kw) then 1 else 0 :: int"
  have ra: "calculateRelevance a [kw] = Inr (2 + ?sa + 5)"
    using ta na inc assms(3,4)
    by (simp add: calculateRelevance_def keyword_relevance_def Let_def)
  then show ?thesis by (simp add: keyword_score_def)
qed

lemma substring_single:
  assumes "original kw \<noteq> []"
    and "get_prop (node_data b) ''name'' = Some (JStr nb)" "toLowerCase nb \<noteq> original kw"
      "str_includes (toLowerCase nb) (original kw)"
  shows "keyword_score b kw \<le> 6"
proof -
  have tb: "truthy (node_data b)" using assms(2) by (cases "node_data b") auto
  have "toLowerCase nb \<noteq> []" using assms(4,1) by (rule str_includes_nonempty)
  then have nb: "nb \<noteq> []" by (auto simp: toLowerCase_def)
  let ?ib = "if str_includes (toLowerCase (stringify (node_json b))) (original kw) then 2 else 0 :: int"
  let ?sb = "if str_includes (toLowerCase (stringify (node_json b))) (stemmed kw) then 1 else 0 :: int"
  have rb: "calculateRelevance b [kw] = Inr (?ib + ?sb + 3)"
    using tb nb assms(2,3,4)
    by (simp add: calculateRelevance_def keyword_relevance_def Let_def)
  then show ?thesis by (simp add: keyword_score_def)
qed

text \<open>
  C7, amended: let the keyword be not empty and of characters that \<open>JSON.stringify\<close>
  does not escape (as the tokenizer's words are), let the lowercased \<open>data.name\<close> of
  node \<open>a\<close> be the keyword and the lowercased \<open>data.name\<close> of node \<open>b\<close> contain it
  without being it.  Then \<open>a\<close> scores strictly higher than \<open>b\<close> for every keyword list
  that holds the keyword, wherever it stands in the list, provided that none of the
  other keywords scores more on \<open>b\<close> than on \<open>a\<close> (so in particular when the other
  keywords do not occur in \<open>b\<close> at all); whatever else the two nodes hold.  The keyword
  itself scores at least 7 on \<open>a\<close> and at most 6 on \<open>b\<close>.
\<close>

theorem exact_name_outranks_substring:
  assumes "original kw \<noteq> []" "json_plain (original kw)"
    and "get_prop (node_data a) ''name'' = Some (JStr na)" "toLowerCase na = original kw"
    and "get_prop (node_data b) ''name'' = Some (JStr nb)" "toLowerCase nb \<noteq> original kw"
      "str_includes (toLowerCase nb) (original kw)"
    and "\<forall>other \<in> set (pre @ post). keyword_score b other \<le> keyword_score a other"
  shows "\<exists>ra rb. calculateRelevance a (pre @ [kw] @ post) = Inr ra
           \<and> calculateRelevance b (pre @ [kw] @ post) = Inr rb \<and> rb < ra
           \<and> calculateRelevance a [kw] = Inr (keyword_score a kw)
           \<and> calculateRelevance b [kw] = Inr (keyword_score b kw)
           \<and> 7 \<le> keyword_score a kw \<and> keyword_score b kw \<le> 6"
proof -
  note a = assms(3) and b = assms(5)
  have k7: "7 \<le> keyword_score a kw" using assms(1,2,3,4) by (rule exact_single)
  have k6: "keyword_score b kw \<le> 6" using assms(1,5,6,7) by (rule substring_single)
  have "\<forall>other \<in> set pre. keyword_score b other \<le> keyword_score a other"
    using assms(8) by simp
  from calculateRelevance_dominated[OF a b this] obtain pa pb where
    p: "calculateRelevance a pre = Inr pa" "calculateRelevance b pre = Inr pb" "pb \<le> pa" by blast
  have "\<forall>other \<in> set post. keyword_score b other \<le> keyword_score a other"
    using assms(8) by simp
  from calculateRelevance_dominated[OF a b this] obtain qa qb where
    q: "calculateRelevance a post = Inr qa" "calculateRelevance b post = Inr qb" "qb \<le> qa" by blast
  have ka: "calculateRelevance a ([kw] @ post) = Inr (keyword_score a kw + qa)"
    using a calculateRelevance_single[OF a] q(1) by (rule calculateRelevance_append)
  have kb: "calculateRelevance b ([kw] @ post) = Inr (keyword_score b kw + qb)"
    using b calculateRelevance_single[OF b] q(2) by (rule calculateRelevance_append)
  have ra: "calculateRelevance a (pre @ [kw] @ post) = Inr (pa + (keyword_score a kw + qa))"
    using a p(1) ka by (rule calculateRelevance_append)
  have rb: "calculateRelevance b (pre @ [kw] @ post) = Inr (pb + (keyword_score b kw + qb))"
    using b p(2) kb by (rule calculateRelevance_append)
  have "pb + (keyword_score b kw + qb) < pa + (keyword_score a kw + qa)"
    using p(3) q(3) k7 k6 by simp
  then show ?thesis
    using ra rb k7 k6 calculateRelevance_single[OF a, of kw] calculateRelevance_single[OF b, of kw]
    by blast
qed

theorem exact_name_outranks_substring_witness:
  "calculateRelevance (named_node ''Log'')
      [\<lparr>original = ''function'', stemmed = ''function''\<rparr>, \<lparr>original = ''log'', stemmed = ''log''\<rparr>,
       \<lparr>original = ''record'', stemmed = ''record''\<rparr>] = Inr 11
   \<and> calculateRelevance (named_node ''login'')
      [\<lparr>original = ''function'', stemmed = ''function''\<rparr>, \<lparr>original = ''log'', stemmed = ''log''\<rparr>,
       \<lparr>original = ''record'', stemmed = ''record''\<rparr>] = Inr 9"
proof -
  let ?kw = "\<lparr>original = ''log'', stemmed = ''log''\<rparr>"
  let ?f = "\<lparr>original = ''function'', stemmed = ''function''\<rparr>"
  let ?r = "\<lparr>original = ''record'', stemmed = ''record''\<rparr>"
  have 1: "original ?kw \<noteq> []" by simp
  have 2: "json_plain (original ?kw)" by code_simp
  have 3: "get_prop (node_data (named_node ''Log'')) ''name'' = Some (JStr ''Log'')" by code_simp
  have 4: "toLowerCase ''Log'' = original ?kw" by code_simp
  have 5: "get_prop (node_data (named_node ''login'')) ''name'' = Some (JStr ''login'')" by code_simp
  have 6: "toLowerCase ''login'' \<noteq> original ?kw" by code_simp
  have 7: "str_includes (toLowerCase ''login'') (original ?kw)"
    by code_simp
  have f: "keyword_score (named_node ''login'') ?f \<le> keyword_score (named_node ''Log'') ?f"
    by code_simp
  have r: "keyword_score (named_node ''login'') ?r \<le> keyword_score (named_node ''Log'') ?r"
    by code_simp
  have 8: "\<forall>other \<in> set ([?f] @ [?r]). keyword_score (named_node ''login'') other
      \<le> keyword_score (named_node ''Log'') other"
    using f r by simp
  from exact_name_outranks_substring[OF 1 2 3 4 5 6 7 8] obtain ra rb :: int where
    r: "calculateRelevance (named_node ''Log'') ([?f] @ [?kw] @ [?r]) = Inr ra"
       "calculateRelevance (named_node ''login'') ([?f] @ [?kw] @ [?r]) = Inr rb"
       "rb < ra" by blast
  have a: "calculateRelevance (named_node ''Log'') ([?f] @ [?kw] @ [?r]) = Inr 11"
    by code_simp
  have b: "calculateRelevance (named_node ''login'') ([?f] @ [?kw] @ [?r]) = Inr 9"
    by code_simp
  show ?thesis using a b r by simp
qed

text \<open>
  The claim as written fails for a list of several keywords: with the keywords of
  \<open>log gin\<close> the node named \<open>log\<close> (an exact match) scores 8, and the node that differs
  only in its name \<open>login\<close> (which contains both keywords and equals none) scores 12.
\<close>

theorem exact_name_counterexample:
  "calculateRelevance (named_node ''log'') log_gin = Inr 8
   \<and> calculateRelevance (named_node ''login'') log_gin = Inr 12"
  by code_simp

subsection \<open>The files of a context\<close>

lemma push_file_cases:
  assumes "push_file g ml full path mark acc P = Inr (acc', P', e)"
  shows "acc' = acc \<or> (\<exists>fileNode raw fc. raw_file g path = Inr (Some (fileNode, raw))
            \<and> make_content fileNode raw path ml full = Inr fc \<and> acc' = acc @ [fc])"
proof (cases "raw_file g path")
  case (Inl e)
  with assms show ?thesis by (simp add: push_file_def)
next
  case (Inr r)
  show ?thesis
  proof (cases r)
    case None
    with Inr assms show ?thesis by (simp add: push_file_def)
  next
    case (Some p)
    obtain fileNode raw where p: "p = (fileNode, raw)" by (cases p)
    show ?thesis
    proof (cases "make_content fileNode raw path ml full")
      case (Inl err)
      with Inr Some p assms show ?thesis by (simp add: push_file_def)
    next
      case fc: (Inr fc)
      with Inr Some p assms have "acc' = acc @ [fc]" by (simp add: push_file_def)
      with Inr Some p fc show ?thesis by blast
    qed
  qed
qed

lemma file_step_cases:
  assumes "file_step g ml full n acc P = Inr (acc', P', e)"
  shows "acc' = acc \<or> (\<exists>path fileNode raw fc. raw_file g path = Inr (Some (fileNode, raw))
            \<and> make_content fileNode raw path ml full = Inr fc \<and> acc' = acc @ [fc])"
proof (cases "if node_type n = ''file'' then string_prop n ''path'' else Inr None")
  case (Inl err)
  with assms show ?thesis by (simp add: file_step_def)
next
  case (Inr path)
  show ?thesis
  proof (cases "path \<noteq> None \<and> the path \<notin> P")
    case True
    with Inr assms have "push_file g ml full (the path) True acc P = Inr (acc', P', e)"
      by (simp add: file_step_def)
    from push_file_cases[OF this] show ?thesis by blast
  next
    case False
    show ?thesis
    proof (cases "string_prop n ''file''")
      case (Inl err)
      with Inr False assms show ?thesis by (auto simp: file_step_def)
    next
      case fl: (Inr fref)
      show ?thesis
      proof (cases "fref \<noteq> None \<and> the fref \<notin> P")
        case True
        with Inr False fl assms
        have "push_file g ml full (the fref) False acc P = Inr (acc', P', e)"
          by (auto simp: file_step_def)
        from push_file_cases[OF this] show ?thesis by blast
      next
        case no: False
        with Inr False fl assms show ?thesis by (auto simp: file_step_def)
      qed
    qed
  qed
qed

lemma files_loop_all:
  assumes "files_loop g mf ml full ns acc P = Inr fs"
    and "\<forall>f \<in> set acc. Q f"
    and "\<And>path fileNode raw fc. raw_file g path = Inr (Some (fileNode, raw)) \<Longrightarrow>
           make_content fileNode raw path ml full = Inr fc \<Longrightarrow> Q fc"
  shows "\<forall>f \<in> set fs. Q f"
  using assms(1,2)
proof (induction ns arbitrary: acc P)
  case Nil
  then show ?case by simp
next
  case (Cons n ns)
  show ?case
  proof (cases "file_step g ml full n acc P")
    case (Inl e)
    with Cons.prems(1) show ?thesis by simp
  next
    case (Inr r)
    obtain acc' P' e where r: "r = (acc', P', e)" by (cases r)
    have step: "file_step g ml full n acc P = Inr (acc', P', e)" using Inr r by simp
    have q: "\<forall>f \<in> set acc'. Q f"
      using file_step_cases[OF step] Cons.prems(2) assms(3) by auto
    show ?thesis
    proof (cases "e \<and> mf \<le> int (length acc')")
      case True
      with step Cons.prems(1) have "fs = acc'" by simp
      with q show ?thesis by simp
    next
      case False
      with step Cons.prems(1) have "files_loop g mf ml full ns acc' P' = Inr fs" by auto
      from Cons.IH[OF this q] show ?thesis .
    qed
  qed
qed

lemma files_loop_length:
  assumes "files_loop g mf ml full ns acc P = Inr fs"
  shows "int (length fs) \<le> max (int (length acc) + 1) mf"
  using assms
proof (induction ns arbitrary: acc P)
  case Nil
  then show ?case by simp
next
  case (Cons n ns)
  show ?case
  proof (cases "file_step g ml full n acc P")
    case (Inl e)
    with Cons.prems show ?thesis by simp
  next
    case (Inr r)
    obtain acc' P' e where r: "r = (acc', P', e)" by (cases r)
    have step: "file_step g ml full n acc P = Inr (acc', P', e)" using Inr r by simp
    have len: "length acc' = length acc \<or> length acc' = length acc + 1"
      using file_step_cases[OF step] by auto
    have entered: "length acc' = length acc + 1 \<Longrightarrow> e"
    proof -
      assume l: "length acc' = length acc + 1"
      show e
      proof (rule ccontr)
        assume "\<not> e"
        then have "acc' = acc" using step
          by (auto simp: file_step_def push_file_def split: sum.splits option.splits if_splits)
        with l show False by simp
      qed
    qed
    show ?thesis
    proof (cases "e \<and> mf \<le> int (length acc')")
      case True
      with step Cons.prems have "fs = acc'" by simp
      with len show ?thesis by auto
    next
      case False
      with step Cons.prems have rec: "files_loop g mf ml full ns acc' P' = Inr fs" by auto
      from Cons.IH[OF rec] have ih: "int (length fs) \<le> max (int (length acc') + 1) mf" .
      from len show ?thesis
      proof
        assume "length acc' = length acc"
        with ih show ?thesis by simp
      next
        assume l: "length acc' = length acc + 1"
        then have e using entered by simp
        with False have "int (length acc') < mf" by simp
        with ih show ?thesis by simp
      qed
    qed
  qed
qed

lemma raw_file_Some:
  assumes "raw_file g path = Inr (Some (fileNode, raw))"
  shows "fileNode \<in> set (map snd (nodes g)) \<and> node_type fileNode = ''file''
       \<and> get_prop (node_data fileNode) ''path'' = Some (JStr path)
       \<and> get_prop (node_data fileNode) ''raw'' = Some (JStr raw) \<and> raw \<noteq> []"
proof -
  obtain others where f: "findNodesByProperty g ''path'' path (Some ''file'') = fileNode # others"
    and r: "get_prop (node_data fileNode) ''raw'' = Some (JStr raw)" "raw \<noteq> []"
    using assms
    by (auto simp: raw_file_def split: list.splits option.splits json.splits if_splits)
  have "fileNode \<in> set (findNodesByProperty g ''path'' path (Some ''file''))"
    unfolding f by simp
  then have "fileNode \<in> set (map snd (nodes g)) \<and> node_type fileNode = ''file''
       \<and> get_prop (node_data fileNode) ''path'' = Some (JStr path)"
    unfolding findNodesByProperty_def by auto
  with r show ?thesis by simp
qed

subsection \<open>The budget of the sections\<close>

lemma take_sections_prefix: "\<exists>k. take_sections m secs acc cur = acc @ take k secs"
proof (induction secs arbitrary: acc cur)
  case Nil
  show ?case by simp
next
  case (Cons sec secs)
  show ?case
  proof (cases "m < cur + int (length sec) \<and> acc \<noteq> []")
    case True
    then have "take_sections m (sec # secs) acc cur = acc @ take 0 (sec # secs)" by simp
    then show ?thesis by blast
  next
    case False
    obtain k where "take_sections m secs (acc @ [sec]) (cur + int (length sec)) = (acc @ [sec]) @ take k secs"
      using Cons.IH by blast
    with False have "take_sections m (sec # secs) acc cur = acc @ take (Suc k) (sec # secs)"
      by auto
    then show ?thesis by blast
  qed
qed

lemma take_sections_budget:
  assumes "cur = int (sum_list (map length acc))"
    and "length acc \<le> 1 \<or> cur \<le> m"
  shows "length (take_sections m secs acc cur) \<le> 1
       \<or> int (sum_list (map length (take_sections m secs acc cur))) \<le> m"
  using assms
proof (induction secs arbitrary: acc cur)
  case Nil
  then show ?case by simp
next
  case (Cons sec secs)
  show ?case
  proof (cases "m < cur + int (length sec) \<and> acc \<noteq> []")
    case True
    with Cons.prems show ?thesis by simp
  next
    case False
    have 1: "cur + int (length sec) = int (sum_list (map length (acc @ [sec])))"
      using Cons.prems(1) by simp
    have 2: "length (acc @ [sec]) \<le> 1 \<or> cur + int (length sec) \<le> m"
      using False by auto
    from Cons.IH[OF 1 2] False show ?thesis by simp
  qed
qed

lemma take_sections_maximal:
  "cur = int (sum_list (map length acc)) \<Longrightarrow> take_sections m secs acc cur = acc @ take k secs \<Longrightarrow>
     k < length secs \<Longrightarrow>
     acc @ take k secs \<noteq> []
     \<and> m < int (sum_list (map length (acc @ take k secs))) + int (length (secs ! k))"
proof (induction secs arbitrary: acc cur k)
  case Nil
  then show ?case by simp
next
  case (Cons sec secs)
  show ?case
  proof (cases "m < cur + int (length sec) \<and> acc \<noteq> []")
    case True
    then have "take_sections m (sec # secs) acc cur = acc" by simp
    then have "take k (sec # secs) = []" using Cons.prems(2) by simp
    then have "k = 0" by (cases k) simp_all
    then show ?thesis using True Cons.prems(1) by simp
  next
    case False
    then have r: "take_sections m (sec # secs) acc cur
        = take_sections m secs (acc @ [sec]) (cur + int (length sec))" by auto
    obtain j where j: "take_sections m secs (acc @ [sec]) (cur + int (length sec)) = (acc @ [sec]) @ take j secs"
      using take_sections_prefix by blast
    have "acc @ take k (sec # secs) = acc @ sec # take j secs"
      using Cons.prems(2) r j by simp
    then have "take k (sec # secs) = sec # take j secs" by simp
    then obtain k' where k: "k = Suc k'" by (cases k) simp_all
    have e: "take_sections m secs (acc @ [sec]) (cur + int (length sec)) = (acc @ [sec]) @ take k' secs"
      using Cons.prems(2) r k by simp
    have c: "cur + int (length sec) = int (sum_list (map length (acc @ [sec])))"
      using Cons.prems(1) by simp
    have l: "k' < length secs" using Cons.prems(3) k by simp
    from Cons.IH[OF c e l] show ?thesis using k by simp
  qed
qed

lemma sections_budget:
  assumes "extractRelevantSections d raw m = Inr content" "raw \<noteq> []"
  shows "\<exists>secs parts. file_sections d raw = Inr secs \<and> budget_prefix m secs parts
           \<and> content = join elision parts"
proof (cases "included_ranges d (split_lines raw)")
  case (Inl e)
  with assms show ?thesis by (simp add: extractRelevantSections_def)
next
  case (Inr ranges)
  let ?secs = "map (section_text (split_lines raw)) (mergeRanges (sort_key range_start ranges))"
  let ?parts = "take_sections m ?secs [] 0"
  have c: "content = join elision ?parts"
    using assms Inr by (simp add: extractRelevantSections_def Let_def)
  have s: "file_sections d raw = Inr ?secs"
    using Inr by (simp add: file_sections_def)
  obtain k where k: "?parts = take k ?secs"
    using take_sections_prefix[of m ?secs "[]" 0] by auto
  have p: "?parts = take (length ?parts) ?secs"
    by (subst (2) k, subst k) (simp add: min_def)
  have b: "length ?parts \<le> 1 \<or> int (sum_list (map length ?parts)) \<le> m"
    by (rule take_sections_budget) simp_all
  have x: "?parts \<noteq> [] \<and> m < int (sum_list (map length ?parts)) + int (length (?secs ! length ?parts))"
    if l: "length ?parts < length ?secs"
  proof -
    have "take_sections m ?secs [] 0 = [] @ take (length ?parts) ?secs" using p by simp
    from take_sections_maximal[OF _ this l]
    have "[] @ take (length ?parts) ?secs \<noteq> []
        \<and> m < int (sum_list (map length ([] @ take (length ?parts) ?secs))) + int (length (?secs ! length ?parts))"
      by simp
    then show ?thesis using p by simp
  qed
  have "budget_prefix m ?secs ?parts"
    unfolding budget_prefix_def using p b x by blast
  then show ?thesis using c s by blast
qed

lemma make_content_cases:
  assumes "make_content fileNode raw path m full = Inr fc" "raw \<noteq> []"
  shows "fc_path fc = path \<and> relevanceScore fc = 0
       \<and> (if full \<or> int (length raw) \<le> m then fc_content fc = raw
           else (\<exists>secs parts. file_sections (node_data fileNode) raw = Inr secs
                  \<and> budget_prefix m secs parts \<and> fc_content fc = join elision parts))"
proof (cases "\<not> full \<and> m < int (length raw)")
  case True
  then obtain content where e: "extractRelevantSections (node_data fileNode) raw m = Inr content"
    and fc: "fc_content fc = content" "fc_path fc = path" "relevanceScore fc = 0"
    using assms(1) by (auto simp: make_content_def Let_def split: sum.splits)
  from sections_budget[OF e assms(2)] fc True show ?thesis by auto
next
  case False
  then have "fc_path fc = path" "relevanceScore fc = 0"
    "fc_content fc = (if full then raw else take (nat m) raw)"
    using assms(1) by (auto simp: make_content_def Let_def)
  with False show ?thesis by auto
qed

lemma sort_key_constant: "\<forall>x \<in> set xs. f x = c \<Longrightarrow> sort_key f xs = xs"
proof (induction xs)
  case Nil
  show ?case by simp
next
  case (Cons x xs)
  then have "sort_key f xs = xs" by simp
  then show ?case using Cons.prems by (cases xs) simp_all
qed

lemma files_budget:
  assumes "getFilesWithContent g ns maxFiles maxCodeLength includeFullFiles = Inr fs"
  shows "int (length fs) \<le> max 1 maxFiles
       \<and> (\<forall>f \<in> set fs. \<exists>fileNode raw.
             fileNode \<in> set (map snd (nodes g)) \<and> node_type fileNode = ''file''
           \<and> get_prop (node_data fileNode) ''path'' = Some (JStr (fc_path f))
           \<and> get_prop (node_data fileNode) ''raw'' = Some (JStr raw)
           \<and> (if includeFullFiles \<or> int (length raw) \<le> maxCodeLength then fc_content f = raw
               else (\<exists>secs parts. file_sections (node_data fileNode) raw = Inr secs
                      \<and> budget_prefix maxCodeLength secs parts \<and> fc_content f = join elision parts)))"
proof -
  let ?Q = "\<lambda>f. \<exists>fileNode raw.
             fileNode \<in> set (map snd (nodes g)) \<and> node_type fileNode = ''file''
           \<and> get_prop (node_data fileNode) ''path'' = Some (JStr (fc_path f))
           \<and> get_prop (node_data fileNode) ''raw'' = Some (JStr raw)
           \<and> (if includeFullFiles \<or> int (length raw) \<le> maxCodeLength then fc_content f = raw
               else (\<exists>secs parts. file_sections (node_data fileNode) raw = Inr secs
                      \<and> budget_prefix maxCodeLength secs parts \<and> fc_content f = join elision parts))"
  obtain fs0 where loop: "files_loop g maxFiles maxCodeLength includeFullFiles
      (prioritizeNodesByRelevance ns) [] {} = Inr fs0"
    and fs: "fs = sort_key (\<lambda>f. - relevanceScore f) fs0"
    using assms by (auto simp: getFilesWithContent_def split: sum.splits)
  have len: "int (length fs0) \<le> max 1 maxFiles"
    using files_loop_length[OF loop] by simp
  have q: "\<forall>f \<in> set fs0. ?Q f"
  proof (rule files_loop_all[OF loop])
    show "\<forall>f \<in> set []. ?Q f" by simp
  next
    fix path fileNode raw fc
    assume r: "raw_file g path = Inr (Some (fileNode, raw))"
      and m: "make_content fileNode raw path maxCodeLength includeFullFiles = Inr fc"
    note rf = raw_file_Some[OF r]
    from rf have ne: "raw \<noteq> []" by simp
    note mc = make_content_cases[OF m ne]
    from mc have p: "fc_path fc = path" by simp
    show "?Q fc"
    proof (intro exI[of _ fileNode] exI[of _ raw] conjI)
      show "fileNode \<in> set (map snd (nodes g))" using rf by simp
      show "node_type fileNode = ''file''" using rf by simp
      show "get_prop (node_data fileNode) ''path'' = Some (JStr (fc_path fc))"
        using rf p by simp
      show "get_prop (node_data fileNode) ''raw'' = Some (JStr raw)" using rf by simp
      show "if includeFullFiles \<or> int (length raw) \<le> maxCodeLength then fc_content fc = raw
               else (\<exists>secs parts. file_sections (node_data fileNode) raw = Inr secs
                      \<and> budget_prefix maxCodeLength secs parts \<and> fc_content fc = join elision parts)"
        using mc by blast
    qed
  qed
  show ?thesis unfolding fs using len q by simp
qed

lemma join_length:
  "xs \<noteq> [] \<Longrightarrow> length (join sep xs) + length sep = sum_list (map length xs) + length sep * length xs"
  by (induction sep xs rule: join.induct) simp_all

lemma length_elision: "length elision = 10"
  by (simp add: elision_def)

lemma sections_length:
  assumes "length parts \<le> 1 \<or> int (sum_list (map length parts)) \<le> m"
  shows "length parts \<le> 1 \<or> int (length (join elision parts)) \<le> m + 10 * (int (length parts) - 1)"
proof (cases "length parts \<le> 1")
  case True
  then show ?thesis by simp
next
  case False
  then have ne: "parts \<noteq> []" by auto
  have "int (length (join elision parts)) + 10 = int (sum_list (map length parts)) + 10 * int (length parts)"
    using join_length[OF ne, of elision] by (simp add: length_elision)
  then show ?thesis using assms False by simp
qed

text \<open>
  C2, amended: a context holds at most \<open>max(1, maxFiles)\<close> files, each with the text of
  a file node of the store.  With \<open>includeFullFiles = true\<close> (the default), and whenever
  the text is at most \<open>maxCodeLength\<close> long, that is the whole text.  Otherwise it is
  made of sections of the file (the text of its merged ranges, each whole, in order)
  joined by the elision marker of 10 characters: the first section is always taken, and
  further ones exactly while the sum of their lengths stays within \<open>maxCodeLength\<close>, so
  that an excerpt of more than one section is at most \<open>maxCodeLength\<close> plus the markers
  long.
\<close>

theorem excerpt_budget:
  assumes "getContext g query opts = Inr c"
  shows "int (length (filesWithContent c)) \<le> max 1 (opt_maxFiles opts)
       \<and> (\<forall>f \<in> set (filesWithContent c). \<exists>fileNode raw.
             fileNode \<in> set (map snd (nodes g)) \<and> node_type fileNode = ''file''
           \<and> get_prop (node_data fileNode) ''path'' = Some (JStr (fc_path f))
           \<and> get_prop (node_data fileNode) ''raw'' = Some (JStr raw)
           \<and> (if opt_includeFullFiles opts \<or> int (length raw) \<le> opt_maxCodeLength opts
               then fc_content f = raw
               else (\<exists>secs parts. file_sections (node_data fileNode) raw = Inr secs
                      \<and> budget_prefix (opt_maxCodeLength opts) secs parts
                      \<and> fc_content f = join elision parts
                      \<and> (length parts \<le> 1
                          \<or> int (length (fc_content f))
                                \<le> opt_maxCodeLength opts + 10 * (int (length parts) - 1)))))"
proof -
  obtain ns where fs: "getFilesWithContent g ns (opt_maxFiles opts) (opt_maxCodeLength opts)
      (opt_includeFullFiles opts) = Inr (filesWithContent c)"
    using assms by (auto simp: getContext_def split: sum.splits if_splits)
  note b = files_budget[OF fs]
  have "\<exists>fileNode raw.
             fileNode \<in> set (map snd (nodes g)) \<and> node_type fileNode = ''file''
           \<and> get_prop (node_data fileNode) ''path'' = Some (JStr (fc_path f))
           \<and> get_prop (node_data fileNode) ''raw'' = Some (JStr raw)
           \<and> (if opt_includeFullFiles opts \<or> int (length raw) \<le> opt_maxCodeLength opts
               then fc_content f = raw
               else (\<exists>secs parts. file_sections (node_data fileNode) raw = Inr secs
                      \<and> budget_prefix (opt_maxCodeLength opts) secs parts
                      \<and> fc_content f = join elision parts
                      \<and> (length parts \<le> 1
                          \<or> int (length (fc_content f))
                                \<le> opt_maxCodeLength opts + 10 * (int (length parts) - 1))))"
    if f: "f \<in> set (filesWithContent c)" for f
  proof -
    from b f obtain fileNode raw where
      n: "fileNode \<in> set (map snd (nodes g))" "node_type fileNode = ''file''"
         "get_prop (node_data fileNode) ''path'' = Some (JStr (fc_path f))"
         "get_prop (node_data fileNode) ''raw'' = Some (JStr raw)"
      and r: "if opt_includeFullFiles opts \<or> int (length raw) \<le> opt_maxCodeLength opts
               then fc_content f = raw
               else (\<exists>secs parts. file_sections (node_data fileNode) raw = Inr secs
                      \<and> budget_prefix (opt_maxCodeLength opts) secs parts
                      \<and> fc_content f = join elision parts)"
      by blast
    have "if opt_includeFullFiles opts \<or> int (length raw) \<le> opt_maxCodeLength opts
               then fc_content f = raw
               else (\<exists>secs parts. file_sections (node_data fileNode) raw = Inr secs
                      \<and> budget_prefix (opt_maxCodeLength opts) secs parts
                      \<and> fc_content f = join elision parts
                      \<and> (length parts \<le> 1
                          \<or> int (length (fc_content f))
                                \<le> opt_maxCodeLength opts + 10 * (int (length parts) - 1)))"
    proof (cases "opt_includeFullFiles opts \<or> int (length raw) \<le> opt_maxCodeLength opts")
      case True
      with r show ?thesis by simp
    next
      case False
      with r obtain secs parts where p: "file_sections (node_data fileNode) raw = Inr secs"
        "budget_prefix (opt_maxCodeLength opts) secs parts" "fc_content f = join elision parts"
        by auto
      have "length parts \<le> 1 \<or> int (sum_list (map length parts)) \<le> opt_maxCodeLength opts"
        using p(2) by (simp add: budget_prefix_def)
      from sections_length[OF this]
      have "length parts \<le> 1
              \<or> int (length (fc_content f)) \<le> opt_maxCodeLength opts + 10 * (int (length parts) - 1)"
        unfolding p(3) .
      with p False show ?thesis by auto
    qed
    with n show ?thesis by blast
  qed
  then show ?thesis using b by blast
qed

lemma sections_context:
  "contents (getContext sections_graph []
      (default_options\<lparr>opt_includeFullFiles := False, opt_maxCodeLength := 50, opt_maxFiles := 1\<rparr>))
     = Inr [''export default two;'' @ elision @ ''function one() { return 1; }'']"
  by code_simp

theorem excerpt_budget_witness:
  "\<exists>c. getContext sections_graph []
        (default_options\<lparr>opt_includeFullFiles := False, opt_maxCodeLength := 50, opt_maxFiles := 1\<rparr>) = Inr c
     \<and> map fc_content (filesWithContent c)
         = [''export default two;'' @ elision @ ''function one() { return 1; }'']
     \<and> int (length (filesWithContent c)) \<le> 1"
proof -
  let ?o = "default_options\<lparr>opt_includeFullFiles := False, opt_maxCodeLength := 50, opt_maxFiles := 1\<rparr>"
  obtain c where c: "getContext sections_graph [] ?o = Inr c"
    and m: "map fc_content (filesWithContent c)
         = [''export default two;'' @ elision @ ''function one() { return 1; }'']"
    using sections_context by (cases "getContext sections_graph [] ?o") (simp_all add: contents_def)
  have "int (length (filesWithContent c)) \<le> max 1 (opt_maxFiles ?o)"
    using excerpt_budget[OF c] by blast
  then have l: "int (length (filesWithContent c)) \<le> 1" by (simp add: default_options_def)
  show ?thesis
    by (rule exI[of _ c]) (intro conjI c m l)
qed

text \<open>
  The claim as written fails: with \<open>maxCodeLength = 10\<close> and \<open>maxFiles = 1\<close> the one
  excerpt is the first line of \<open>greet\<close>, 27 characters long, which opens the function's
  body and does not close it (the range of a function ends where its braces first
  balance, here after the default parameter \<open>{}\<close>).
\<close>

theorem excerpt_budget_counterexample:
  "contents (getContext greet_graph []
      (default_options\<lparr>opt_includeFullFiles := False, opt_maxCodeLength := 10, opt_maxFiles := 1\<rparr>))
     = Inr [''function greet(opts = {}) {'']
   \<and> 10 * 1 < int (length ''function greet(opts = {}) {'')
   \<and> open_braces ''function greet(opts = {}) {'' = 1"
  by code_simp

subsection \<open>The repository overview\<close>

lemma node_ids_keys:
  assumes "nodes_keyed g"
  shows "map node_id (map snd (nodes g)) = map fst (nodes g)"
proof -
  have "node_id (snd p) = fst p" if "p \<in> set (nodes g)" for p
    using that assms unfolding nodes_keyed_def by (cases p) auto
  then show ?thesis by simp
qed

lemma distinct_node_ids:
  assumes "graph_ok g"
  shows "distinct (map node_id (map snd (nodes g)))"
proof -
  have k: "nodes_keyed g" and d: "distinct (map fst (nodes g))"
    using assms by (simp_all add: graph_ok_def)
  show ?thesis unfolding node_ids_keys[OF k] by (rule d)
qed

lemma js_slice_take: "0 \<le> k \<Longrightarrow> js_slice xs 0 k = take (nat k) xs"
  by (simp add: js_slice_def Let_def min_def)

lemma push_new_all:
  "distinct (map node_id ns) \<Longrightarrow> node_id ` set ns \<inter> ids = {} \<Longrightarrow>
     push_new (\<lambda>acc. True) ns (acc, ids) = (acc @ ns, ids \<union> node_id ` set ns)"
proof (induction ns arbitrary: acc ids)
  case Nil
  show ?case by simp
next
  case (Cons n ns)
  have 1: "distinct (map node_id ns)" using Cons.prems(1) by simp
  have 2: "node_id ` set ns \<inter> insert (node_id n) ids = {}"
    using Cons.prems by auto
  have 3: "node_id n \<notin> ids" using Cons.prems(2) by auto
  show ?case using Cons.IH[OF 1 2, of "acc @ [n]"] 3 by auto
qed

lemma push_new_room:
  "distinct (map node_id ns) \<Longrightarrow> node_id ` set ns \<inter> ids = {} \<Longrightarrow>
     fst (push_new (\<lambda>acc. int (length acc) < m) ns (acc, ids))
       = acc @ take (nat (m - int (length acc))) ns"
proof (induction ns arbitrary: acc ids)
  case Nil
  show ?case by simp
next
  case (Cons n ns)
  have 1: "distinct (map node_id ns)" using Cons.prems(1) by simp
  have 3: "node_id n \<notin> ids" using Cons.prems(2) by auto
  show ?case
  proof (cases "int (length acc) < m")
    case True
    have 2: "node_id ` set ns \<inter> insert (node_id n) ids = {}"
      using Cons.prems by auto
    have "nat (m - int (length acc)) = Suc (nat (m - int (length (acc @ [n]))))"
      using True by simp
    then have "take (nat (m - int (length acc))) (n # ns) = n # take (nat (m - int (length (acc @ [n])))) ns"
      by simp
    then show ?thesis using Cons.IH[OF 1 2, of "acc @ [n]"] 3 True by simp
  next
    case False
    have 2: "node_id ` set ns \<inter> ids = {}" using Cons.prems(2) by auto
    have "nat (m - int (length acc)) = 0" using False by simp
    then show ?thesis using Cons.IH[OF 1 2, of acc] False by simp
  qed
qed

lemma distinct_take_type:
  "distinct (map node_id (map snd (nodes g))) \<Longrightarrow> distinct (map node_id (take k (findNodesByType g t)))"
proof -
  assume d: "distinct (map node_id (map snd (nodes g)))"
  have "distinct (map node_id (filter (\<lambda>n. node_type n = t) (map snd (nodes g))))"
    using d by (rule distinct_map_filter)
  then have "distinct (take k (map node_id (findNodesByType g t)))"
    unfolding findNodesByType_def by (rule distinct_take)
  then show ?thesis by (simp only: take_map)
qed

lemma take_type_subset: "set (take k (findNodesByType g t)) \<subseteq> set (map snd (nodes g))"
proof
  fix n
  assume "n \<in> set (take k (findNodesByType g t))"
  then have "n \<in> set (findNodesByType g t)" by (rule in_set_takeD)
  then show "n \<in> set (map snd (nodes g))" by (simp add: findNodesByType_def)
qed

lemma take_type_type: "n \<in> set (take k (findNodesByType g t)) \<Longrightarrow> node_type n = t"
proof -
  assume "n \<in> set (take k (findNodesByType g t))"
  then have "n \<in> set (findNodesByType g t)" by (rule in_set_takeD)
  then show ?thesis by (simp add: findNodesByType_def)
qed

lemma take_type_disjoint:
  assumes d: "distinct (map node_id (map snd (nodes g)))" and t: "t \<noteq> t'"
  shows "node_id ` set (take k (findNodesByType g t)) \<inter> node_id ` set (take k' (findNodesByType g t')) = {}"
proof (rule ccontr)
  assume "node_id ` set (take k (findNodesByType g t)) \<inter> node_id ` set (take k' (findNodesByType g t')) \<noteq> {}"
  then obtain x y where x: "x \<in> set (take k (findNodesByType g t))"
    and y: "y \<in> set (take k' (findNodesByType g t'))" and e: "node_id x = node_id y"
    by auto
  have inj: "inj_on node_id (set (map snd (nodes g)))" using d by (simp only: distinct_map)
  have "x \<in> set (map snd (nodes g))" using x take_type_subset by blast
  moreover have "y \<in> set (map snd (nodes g))" using y take_type_subset by blast
  ultimately have "x = y" using inj e by (rule inj_onD[rotated 2])
  moreover have "node_type x = t" using x by (rule take_type_type)
  moreover have "node_type y = t'" using y by (rule take_type_type)
  ultimately show False using t by simp
qed

lemma overview_quota_eq:
  assumes ok: "graph_ok g" and m: "0 \<le> m"
  shows "getRepositoryOverview g m = overview_quota g m"
proof -
  let ?q = "nat (m div 3)"
  let ?F = "take ?q (findNodesByType g ''file'')"
  let ?Fn = "take ?q (findNodesByType g ''function'')"
  let ?C = "take ?q (findNodesByType g ''class'')"
  let ?E = "findNodesByType g ''export''"
  have d: "distinct (map node_id (map snd (nodes g)))" using ok by (rule distinct_node_ids)
  have q: "0 \<le> m div 3" using m by simp
  have E: "?E = take (length ?E) ?E" by simp
  have s1: "push_new (\<lambda>acc. True) ?F ([], {}) = (?F, node_id ` set ?F)"
    using push_new_all[of ?F "{}" "[]"] distinct_take_type[OF d] by simp
  have "node_id ` set ?Fn \<inter> node_id ` set ?F = {}"
    by (rule take_type_disjoint[OF d]) simp
  then have s2: "push_new (\<lambda>acc. True) ?Fn (?F, node_id ` set ?F) = (?F @ ?Fn, node_id ` set ?F \<union> node_id ` set ?Fn)"
    using push_new_all[of ?Fn "node_id ` set ?F" ?F] distinct_take_type[OF d] by simp
  have "node_id ` set ?C \<inter> node_id ` set ?F = {}" "node_id ` set ?C \<inter> node_id ` set ?Fn = {}"
    by (rule take_type_disjoint[OF d], simp)+
  then have "node_id ` set ?C \<inter> (node_id ` set ?F \<union> node_id ` set ?Fn) = {}"
    by (simp only: Int_Un_distrib Un_empty)
  then have s3: "push_new (\<lambda>acc. True) ?C (?F @ ?Fn, node_id ` set ?F \<union> node_id ` set ?Fn)
      = ((?F @ ?Fn) @ ?C, (node_id ` set ?F \<union> node_id ` set ?Fn) \<union> node_id ` set ?C)"
    using push_new_all[of ?C "node_id ` set ?F \<union> node_id ` set ?Fn" "?F @ ?Fn"] distinct_take_type[OF d]
    by simp
  have de: "distinct (map node_id ?E)"
    using distinct_take_type[OF d, of "length ?E" "''export''"] by simp
  have "node_id ` set (take (length ?E) ?E) \<inter> node_id ` set ?F = {}"
    "node_id ` set (take (length ?E) ?E) \<inter> node_id ` set ?Fn = {}"
    "node_id ` set (take (length ?E) ?E) \<inter> node_id ` set ?C = {}"
    by (rule take_type_disjoint[OF d], simp)+
  then have "node_id ` set ?E \<inter> node_id ` set ?F = {}"
    "node_id ` set ?E \<inter> node_id ` set ?Fn = {}"
    "node_id ` set ?E \<inter> node_id ` set ?C = {}"
    by simp_all
  then have "node_id ` set ?E \<inter> ((node_id ` set ?F \<union> node_id ` set ?Fn) \<union> node_id ` set ?C) = {}"
    by (simp only: Int_Un_distrib Un_empty)
  from push_new_room[OF de this, of m "(?F @ ?Fn) @ ?C"]
  have s4: "fst (push_new (\<lambda>acc. int (length acc) < m) ?E
      ((?F @ ?Fn) @ ?C, (node_id ` set ?F \<union> node_id ` set ?Fn) \<union> node_id ` set ?C))
      = ((?F @ ?Fn) @ ?C) @ take (nat (m - int (length ((?F @ ?Fn) @ ?C)))) ?E" .
  have "nat (m - int k) = nat m - k" for k
    using m by (simp add: nat_diff_distrib')
  then have n: "nat (m - int (length ((?F @ ?Fn) @ ?C))) = nat m - length ((?F @ ?Fn) @ ?C)" .
  have "getRepositoryOverview g m = ((?F @ ?Fn) @ ?C) @ take (nat (m - int (length ((?F @ ?Fn) @ ?C)))) ?E"
    unfolding getRepositoryOverview_def Let_def js_slice_take[OF q] s1 s2 s3 s4 ..
  also have "\<dots> = overview_quota g m"
    unfolding n overview_quota_def Let_def by simp
  finally show ?thesis .
qed

lemma push_new_subset: "set (fst (push_new room ns st)) \<subseteq> set (fst st) \<union> set ns"
proof (induction ns arbitrary: st)
  case Nil
  show ?case by simp
next
  case (Cons n ns)
  obtain acc ids where st: "st = (acc, ids)" by (cases st)
  show ?case
  proof (cases "node_id n \<notin> ids \<and> room acc")
    case True
    then show ?thesis using Cons.IH[of "(acc @ [n], insert (node_id n) ids)"] unfolding st by auto
  next
    case False
    then show ?thesis using Cons.IH[of "(acc, ids)"] unfolding st by auto
  qed
qed

lemma js_slice_subset: "set (js_slice xs a b) \<subseteq> set xs"
proof
  fix x
  assume "x \<in> set (js_slice xs a b)"
  then obtain i j where "x \<in> set (take i (drop j xs))"
    unfolding js_slice_def Let_def by blast
  then have "x \<in> set (drop j xs)" by (rule in_set_takeD)
  then show "x \<in> set xs" by (rule in_set_dropD)
qed

lemma findNodesByType_subset: "set (findNodesByType g t) \<subseteq> set (map snd (nodes g))"
  by (auto simp: findNodesByType_def)

lemma overview_subset: "set (getRepositoryOverview g m) \<subseteq> set (map snd (nodes g))"
proof -
  let ?X = "set (map snd (nodes g))"
  let ?st1 = "push_new (\<lambda>acc. True) (js_slice (findNodesByType g ''file'') 0 (m div 3)) ([], {})"
  let ?st2 = "push_new (\<lambda>acc. True) (js_slice (findNodesByType g ''function'') 0 (m div 3)) ?st1"
  let ?st3 = "push_new (\<lambda>acc. True) (js_slice (findNodesByType g ''class'') 0 (m div 3)) ?st2"
  let ?st4 = "push_new (\<lambda>acc. int (length acc) < m) (findNodesByType g ''export'') ?st3"
  have sl: "set (js_slice (findNodesByType g t) 0 k) \<subseteq> ?X" for t k
    using js_slice_subset[of "findNodesByType g t" 0 k] findNodesByType_subset[of g t] by (rule order_trans)
  have 1: "set (fst ?st1) \<subseteq> ?X"
    using push_new_subset[of "\<lambda>acc. True" "js_slice (findNodesByType g ''file'') 0 (m div 3)" "([], {})"]
      sl[of "''file''" "m div 3"] by auto
  have 2: "set (fst ?st2) \<subseteq> ?X"
    using push_new_subset[of "\<lambda>acc. True" "js_slice (findNodesByType g ''function'') 0 (m div 3)" ?st1]
      sl[of "''function''" "m div 3"] 1 by blast
  have 3: "set (fst ?st3) \<subseteq> ?X"
    using push_new_subset[of "\<lambda>acc. True" "js_slice (findNodesByType g ''class'') 0 (m div 3)" ?st2]
      sl[of "''class''" "m div 3"] 2 by blast
  have 4: "set (fst ?st4) \<subseteq> ?X"
    using push_new_subset[of "\<lambda>acc. int (length acc) < m" "findNodesByType g ''export''" ?st3]
      findNodesByType_subset[of g "''export''"] 3 by blast
  show ?thesis unfolding getRepositoryOverview_def Let_def by (rule 4)
qed

lemma prioritize_overview: "prioritizeNodesByRelevance (overview_quota g m) = overview_quota g m"
proof -
  let ?q = "nat (m div 3)"
  let ?F = "take ?q (findNodesByType g ''file'')"
  let ?Fn = "take ?q (findNodesByType g ''function'')"
  let ?C = "take ?q (findNodesByType g ''class'')"
  let ?E = "take (nat m - length (?F @ ?Fn @ ?C)) (findNodesByType g ''export'')"
  have all: "filter P xs = xs" if "\<forall>x \<in> set xs. P x" for P and xs :: "node list"
    using that by (simp add: filter_id_conv)
  have none: "filter P xs = []" if "\<forall>x \<in> set xs. \<not> P x" for P and xs :: "node list"
    using that by (simp add: filter_empty_conv)
  have tF: "\<forall>n \<in> set ?F. node_type n = ''file''" using take_type_type by blast
  have tFn: "\<forall>n \<in> set ?Fn. node_type n = ''function''" using take_type_type by blast
  have tC: "\<forall>n \<in> set ?C. node_type n = ''class''" using take_type_type by blast
  have tE: "\<forall>n \<in> set ?E. node_type n = ''export''" using take_type_type by blast
  have f1: "filter (\<lambda>n. node_type n = ''file'') ?F = ?F" using tF by (intro all) simp
  have f2: "filter (\<lambda>n. node_type n = ''file'') ?Fn = []" using tFn by (intro none) simp
  have f3: "filter (\<lambda>n. node_type n = ''file'') ?C = []" using tC by (intro none) simp
  have f4: "filter (\<lambda>n. node_type n = ''file'') ?E = []" using tE by (intro none) simp
  have g1: "filter (\<lambda>n. node_type n = ''function'' \<or> node_type n = ''class'') ?F = []"
    using tF by (intro none) simp
  have g2: "filter (\<lambda>n. node_type n = ''function'' \<or> node_type n = ''class'') ?Fn = ?Fn"
    using tFn by (intro all) simp
  have g3: "filter (\<lambda>n. node_type n = ''function'' \<or> node_type n = ''class'') ?C = ?C"
    using tC by (intro all) simp
  have g4: "filter (\<lambda>n. node_type n = ''function'' \<or> node_type n = ''class'') ?E = []"
    using tE by (intro none) simp
  have e1: "filter (\<lambda>n. node_type n = ''export'') ?F = []" using tF by (intro none) simp
  have e2: "filter (\<lambda>n. node_type n = ''export'') ?Fn = []" using tFn by (intro none) simp
  have e3: "filter (\<lambda>n. node_type n = ''export'') ?C = []" using tC by (intro none) simp
  have e4: "filter (\<lambda>n. node_type n = ''export'') ?E = ?E" using tE by (intro all) simp
  have o1: "filter (\<lambda>n. node_type n \<notin> {''file'', ''function'', ''class'', ''export''}) ?F = []"
    using tF by (intro none) simp
  have o2: "filter (\<lambda>n. node_type n \<notin> {''file'', ''function'', ''class'', ''export''}) ?Fn = []"
    using tFn by (intro none) simp
  have o3: "filter (\<lambda>n. node_type n \<notin> {''file'', ''function'', ''class'', ''export''}) ?C = []"
    using tC by (intro none) simp
  have o4: "filter (\<lambda>n. node_type n \<notin> {''file'', ''function'', ''class'', ''export''}) ?E = []"
    using tE by (intro none) simp
  have q: "overview_quota g m = ?F @ ?Fn @ ?C @ ?E"
    by (simp add: overview_quota_def Let_def)
  show ?thesis
    unfolding q prioritizeNodesByRelevance_def filter_append f1 f2 f3 f4 g1 g2 g3 g4 e1 e2 e3 e4 o1 o2 o3 o4
    by simp
qed

lemma file_step_unentered:
  assumes "file_step g ml full n acc P = Inr (acc', P', False)"
  shows "acc' = acc \<and> P' = P"
  using assms
  by (auto simp: file_step_def push_file_def split: sum.splits option.splits if_splits)

lemma file_step_grows:
  assumes "file_step g ml full n acc P = Inr (acc', P', e)"
  shows "acc' = acc \<or> (\<exists>fc. acc' = acc @ [fc])"
  using file_step_cases[OF assms] by blast

lemma files_loop_prefix:
  "files_loop g mf ml full ns acc P = Inr fs \<Longrightarrow> \<exists>rest. fs = acc @ rest"
proof (induction ns arbitrary: acc P)
  case Nil
  then show ?case by simp
next
  case (Cons n ns)
  show ?case
  proof (cases "file_step g ml full n acc P")
    case (Inl e)
    with Cons.prems show ?thesis by simp
  next
    case (Inr r)
    obtain acc' P' e where r: "r = (acc', P', e)" by (cases r)
    have step: "file_step g ml full n acc P = Inr (acc', P', e)" using Inr r by simp
    from file_step_grows[OF step] obtain r0 where a: "acc' = acc @ r0" by auto
    show ?thesis
    proof (cases "e \<and> mf \<le> int (length acc')")
      case True
      with step Cons.prems have "fs = acc'" by simp
      with a show ?thesis by blast
    next
      case False
      with step Cons.prems have "files_loop g mf ml full ns acc' P' = Inr fs" by auto
      from Cons.IH[OF this] obtain rest where "fs = acc' @ rest" by blast
      with a show ?thesis by simp
    qed
  qed
qed

lemma files_loop_take:
  assumes "mf \<le> mf'"
  shows "files_loop g mf' ml full ns acc P = Inr fs' \<Longrightarrow> int (length acc) < mf \<Longrightarrow>
     files_loop g mf ml full ns acc P = Inr (take (nat mf) fs')"
proof (induction ns arbitrary: acc P)
  case Nil
  then show ?case by simp
next
  case (Cons n ns)
  show ?case
  proof (cases "file_step g ml full n acc P")
    case (Inl e)
    with Cons.prems show ?thesis by simp
  next
    case (Inr r)
    obtain acc' P' e where r: "r = (acc', P', e)" by (cases r)
    have step: "file_step g ml full n acc P = Inr (acc', P', e)" using Inr r by simp
    have len: "length acc' = length acc \<or> length acc' = length acc + 1"
      using file_step_grows[OF step] by auto
    show ?thesis
    proof (cases "e \<and> mf \<le> int (length acc')")
      case True
      have l: "int (length acc') = mf" using True len Cons.prems(2) by auto
      have small: "files_loop g mf ml full (n # ns) acc P = Inr acc'"
        using step True by simp
      have "\<exists>rest. fs' = acc' @ rest"
      proof (cases "mf' \<le> int (length acc')")
        case True
        with step \<open>e \<and> mf \<le> int (length acc')\<close> Cons.prems(1) have "fs' = acc'" by simp
        then show ?thesis by simp
      next
        case False
        with step Cons.prems(1) have "files_loop g mf' ml full ns acc' P' = Inr fs'" by simp
        then show ?thesis by (rule files_loop_prefix)
      qed
      then obtain rest where "fs' = acc' @ rest" by blast
      then have "take (nat mf) fs' = acc'" using l by auto
      with small show ?thesis by simp
    next
      case False
      have big: "\<not> (e \<and> mf' \<le> int (length acc'))" using False assms by auto
      have rec': "files_loop g mf' ml full ns acc' P' = Inr fs'"
        using step big Cons.prems(1) by auto
      have "int (length acc') < mf"
      proof (cases e)
        case True
        with False show ?thesis by simp
      next
        case no: False
        with step have "file_step g ml full n acc P = Inr (acc', P', False)" by simp
        then have "acc' = acc" using file_step_unentered by blast
        with Cons.prems(2) show ?thesis by simp
      qed
      from Cons.IH[OF rec' this] have "files_loop g mf ml full ns acc' P' = Inr (take (nat mf) fs')" .
      with step False show ?thesis by auto
    qed
  qed
qed

subsection \<open>Typed stores\<close>

lemma string_prop_typed:
  assumes "string_or_falsy (get_prop (node_data n) k)"
  shows "\<exists>r. string_prop n k = Inr r"
proof (cases "get_prop (node_data n) k")
  case None
  then show ?thesis by (simp add: string_prop_def)
next
  case (Some v)
  with assms show ?thesis
    by (cases v) (auto simp: string_prop_def string_or_falsy_def)
qed

lemma raw_file_typed:
  assumes "typed_graph g"
  shows "\<exists>r. raw_file g path = Inr r"
proof (cases "findNodesByProperty g ''path'' path (Some ''file'')")
  case Nil
  then show ?thesis by (simp add: raw_file_def)
next
  case (Cons fileNode others)
  then have "fileNode \<in> set (findNodesByProperty g ''path'' path (Some ''file''))" by simp
  then have "fileNode \<in> set (map snd (nodes g))" by (simp add: findNodesByProperty_def)
  then have t: "string_or_falsy (get_prop (node_data fileNode) ''raw'')"
    using assms by (auto simp: typed_graph_def typed_node_def)
  show ?thesis
  proof (cases "get_prop (node_data fileNode) ''raw''")
    case None
    with Cons show ?thesis by (simp add: raw_file_def)
  next
    case (Some v)
    with t Cons show ?thesis
      by (cases v) (auto simp: raw_file_def string_or_falsy_def)
  qed
qed

lemma push_file_typed:
  assumes "typed_graph g"
  shows "\<exists>r. push_file g ml True path mark acc P = Inr r"
proof -
  obtain r where r: "raw_file g path = Inr r" using raw_file_typed[OF assms] by blast
  show ?thesis
  proof (cases r)
    case None
    with r show ?thesis by (auto simp: push_file_def)
  next
    case (Some p)
    obtain fileNode raw where p: "p = (fileNode, raw)" by (cases p)
    have "\<exists>fc. make_content fileNode raw path ml True = Inr fc"
      by (simp add: make_content_def Let_def)
    then show ?thesis using r Some p by (auto simp: push_file_def)
  qed
qed

lemma file_step_typed:
  assumes g: "typed_graph g" and n: "n \<in> set (map snd (nodes g))"
  shows "\<exists>r. file_step g ml True n acc P = Inr r"
proof -
  have t: "typed_node n" using g n by (auto simp: typed_graph_def)
  obtain p where p: "string_prop n ''path'' = Inr p"
    using string_prop_typed[of n "''path''"] t by (auto simp: typed_node_def)
  obtain f where f: "string_prop n ''file'' = Inr f"
    using string_prop_typed[of n "''file''"] t by (auto simp: typed_node_def)
  obtain path where path: "(if node_type n = ''file'' then string_prop n ''path'' else Inr None) = Inr path"
    using p by (cases "node_type n = ''file''") auto
  show ?thesis
  proof (cases "path \<noteq> None \<and> the path \<notin> P")
    case True
    then show ?thesis
      using push_file_typed[OF g, of ml "the path" True acc P] path
      by (simp add: file_step_def)
  next
    case False
    show ?thesis
    proof (cases "f \<noteq> None \<and> the f \<notin> P")
      case True
      then show ?thesis
        using push_file_typed[OF g, of ml "the f" False acc P] path f False
        by (auto simp: file_step_def)
    next
      case no: False
      then show ?thesis using path f False by (auto simp: file_step_def)
    qed
  qed
qed

lemma files_loop_typed:
  assumes g: "typed_graph g"
  shows "set ns \<subseteq> set (map snd (nodes g)) \<Longrightarrow> \<exists>fs. files_loop g mf ml True ns acc P = Inr fs"
proof (induction ns arbitrary: acc P)
  case Nil
  show ?case by simp
next
  case (Cons n ns)
  have "n \<in> set (map snd (nodes g))" using Cons.prems by simp
  from file_step_typed[OF g this, of ml acc P] obtain r where r: "file_step g ml True n acc P = Inr r"
    by blast
  obtain acc' P' e where r': "r = (acc', P', e)" by (cases r)
  have "set ns \<subseteq> set (map snd (nodes g))" using Cons.prems by simp
  from Cons.IH[OF this, of acc' P'] obtain fs where "files_loop g mf ml True ns acc' P' = Inr fs"
    by blast
  then show ?case using r r' by simp
qed

lemma files_loop_scores:
  assumes "files_loop g mf ml full ns [] P = Inr fs"
  shows "\<forall>f \<in> set fs. relevanceScore f = 0"
proof (rule files_loop_all[OF assms])
  show "\<forall>f \<in> set []. relevanceScore f = 0" by simp
next
  fix path fileNode raw fc
  assume r: "raw_file g path = Inr (Some (fileNode, raw))"
    and m: "make_content fileNode raw path ml full = Inr fc"
  from raw_file_Some[OF r] have "raw \<noteq> []" by simp
  from make_content_cases[OF m this] show "relevanceScore fc = 0" by simp
qed

lemma getFilesWithContent_loop:
  "getFilesWithContent g ns mf ml full = files_loop g mf ml full (prioritizeNodesByRelevance ns) [] {}"
proof (cases "files_loop g mf ml full (prioritizeNodesByRelevance ns) [] {}")
  case (Inl e)
  then show ?thesis by (simp add: getFilesWithContent_def)
next
  case (Inr fs)
  have "\<forall>f \<in> set fs. - relevanceScore f = 0"
    using files_loop_scores[OF Inr] by simp
  then have "sort_key (\<lambda>f. - relevanceScore f) fs = fs" by (rule sort_key_constant)
  then show ?thesis using Inr by (simp add: getFilesWithContent_def)
qed

lemma typed_no_throw:
  assumes "typed_graph g" "set ns \<subseteq> set (map snd (nodes g))"
  shows "\<not> summary_throws ns \<and> \<not> snippets_throw ns"
  using assms by (auto simp: summary_throws_def snippets_throw_def typed_graph_def typed_node_def)

lemma overview_query_empty: "overview_query []"
  by (simp add: overview_query_def)

lemma getContext_overview:
  assumes "overview_query query"
  shows "getContext g query opts =
     (case files_loop g (opt_maxFiles opts) (opt_maxCodeLength opts) (opt_includeFullFiles opts)
             (prioritizeNodesByRelevance (getRepositoryOverview g (opt_maxNodes opts))) [] {} of
        Inl e \<Rightarrow> Inl e
      | Inr files \<Rightarrow>
          if summary_throws (getRepositoryOverview g (opt_maxNodes opts))
             \<or> (opt_includeCode opts \<and> snippets_throw (getRepositoryOverview g (opt_maxNodes opts)))
          then Inl TypeError
          else Inr \<lparr>ctx_query = query, ctx_nodes = getRepositoryOverview g (opt_maxNodes opts),
                    filesWithContent = files\<rparr>)"
  using assms by (simp add: getContext_def getFilesWithContent_loop)

lemma getContext_overview_returns:
  assumes q: "overview_query query" and t: "typed_graph g" and f: "opt_includeFullFiles opts"
  shows "\<exists>c. getContext g query opts = Inr c"
proof -
  let ?ns = "getRepositoryOverview g (opt_maxNodes opts)"
  have sub: "set ?ns \<subseteq> set (map snd (nodes g))" by (rule overview_subset)
  have "set (prioritizeNodesByRelevance ?ns) \<subseteq> set ?ns"
    by (auto simp: prioritizeNodesByRelevance_def)
  then have "set (prioritizeNodesByRelevance ?ns) \<subseteq> set (map snd (nodes g))"
    using sub by (rule order_trans)
  from files_loop_typed[OF t this, of "opt_maxFiles opts" "opt_maxCodeLength opts" "[]" "{}"]
  obtain fs where fs: "files_loop g (opt_maxFiles opts) (opt_maxCodeLength opts) True
      (prioritizeNodesByRelevance ?ns) [] {} = Inr fs" by blast
  have nt: "\<not> summary_throws ?ns \<and> \<not> snippets_throw ?ns"
    using t sub by (rule typed_no_throw)
  show ?thesis
    unfolding getContext_overview[OF q] using fs nt f by simp
qed


lemma getContext_overview_nodes:
  assumes "overview_query query" "getContext g query opts = Inr c"
  shows "ctx_nodes c = getRepositoryOverview g (opt_maxNodes opts)"
  using assms(2) unfolding getContext_overview[OF assms(1)]
  by (auto split: sum.splits if_splits)

lemma getContext_overview_files:
  assumes "overview_query query" "getContext g query opts = Inr c"
  shows "files_loop g (opt_maxFiles opts) (opt_maxCodeLength opts) (opt_includeFullFiles opts)
             (prioritizeNodesByRelevance (getRepositoryOverview g (opt_maxNodes opts))) [] {}
           = Inr (filesWithContent c)"
  using assms(2) unfolding getContext_overview[OF assms(1)]
  by (auto split: sum.splits if_splits)

lemma files_in_order_take:
  assumes "files_in_order g ml full ns = Inr all"
  shows "files_loop g 2 ml full ns [] {} = Inr (take 2 all)"
proof (cases ns)
  case Nil
  with assms show ?thesis by (simp add: files_in_order_def)
next
  case (Cons n ns')
  then have le: "2 \<le> int (length ns) + 1" by simp
  have "int (length ([] :: file_content list)) < 2" by simp
  from files_loop_take[OF le _ this] assms have "files_loop g 2 ml full ns [] {} = Inr (take (nat 2) all)"
    unfolding files_in_order_def by blast
  then show ?thesis by (simp add: numeral_2_eq_2)
qed

lemma overview_quota_50:
  "overview_quota g 50 =
     (let sample = take 16 (findNodesByType g ''file'') @ take 16 (findNodesByType g ''function'')
                   @ take 16 (findNodesByType g ''class'')
      in sample @ take (50 - length sample) (findNodesByType g ''export''))"
  by (simp add: overview_quota_def Let_def)

text \<open>
  C9: in every store, \<open>getContext\<close> with the empty query, \<open>maxFiles = 2\<close> and the other
  options at their defaults selects the first 16 file nodes, the first 16 function nodes
  and the first 16 class nodes, in this order, then export nodes up to 50 nodes in all,
  and returns at most 2 files: the first two of the files that these nodes yield in
  this order (a file node its own file, any other node the file it names), each with the
  whole text of a file node.  The call returns whenever the nodes have data, with
  strings for \<open>path\<close>, \<open>file\<close> and \<open>raw\<close>.
\<close>

theorem overview_two_files:
  assumes "graph_ok g"
  shows "(typed_graph g \<longrightarrow> (\<exists>c. getContext g [] (default_options\<lparr>opt_maxFiles := 2\<rparr>) = Inr c))
       \<and> (\<forall>c. getContext g [] (default_options\<lparr>opt_maxFiles := 2\<rparr>) = Inr c \<longrightarrow>
            (let sample = take 16 (findNodesByType g ''file'') @ take 16 (findNodesByType g ''function'')
                          @ take 16 (findNodesByType g ''class'')
             in ctx_nodes c = sample @ take (50 - length sample) (findNodesByType g ''export''))
          \<and> length (filesWithContent c) \<le> 2
          \<and> files_loop g 2 5000 True (ctx_nodes c) [] {} = Inr (filesWithContent c)
          \<and> (\<forall>all. files_in_order g 5000 True (ctx_nodes c) = Inr all \<longrightarrow>
                 filesWithContent c = take 2 all)
          \<and> (\<forall>f \<in> set (filesWithContent c). \<exists>fileNode.
                 fileNode \<in> set (map snd (nodes g)) \<and> node_type fileNode = ''file''
               \<and> get_prop (node_data fileNode) ''path'' = Some (JStr (fc_path f))
               \<and> get_prop (node_data fileNode) ''raw'' = Some (JStr (fc_content f))))"
proof -
  let ?o = "default_options\<lparr>opt_maxFiles := 2\<rparr>"
  have o: "opt_maxNodes ?o = 50" "opt_maxFiles ?o = 2" "opt_maxCodeLength ?o = 5000"
    "opt_includeFullFiles ?o = True"
    by (simp_all add: default_options_def)
  have ov: "getRepositoryOverview g 50 = overview_quota g 50"
    using assms by (rule overview_quota_eq) simp
  have 1: "typed_graph g \<longrightarrow> (\<exists>c. getContext g [] ?o = Inr c)"
    using getContext_overview_returns[OF overview_query_empty, of g ?o] o(4) by simp
  have 2: "(let sample = take 16 (findNodesByType g ''file'') @ take 16 (findNodesByType g ''function'')
                          @ take 16 (findNodesByType g ''class'')
             in ctx_nodes c = sample @ take (50 - length sample) (findNodesByType g ''export''))
          \<and> length (filesWithContent c) \<le> 2
          \<and> files_loop g 2 5000 True (ctx_nodes c) [] {} = Inr (filesWithContent c)
          \<and> (\<forall>all. files_in_order g 5000 True (ctx_nodes c) = Inr all \<longrightarrow>
                 filesWithContent c = take 2 all)
          \<and> (\<forall>f \<in> set (filesWithContent c). \<exists>fileNode.
                 fileNode \<in> set (map snd (nodes g)) \<and> node_type fileNode = ''file''
               \<and> get_prop (node_data fileNode) ''path'' = Some (JStr (fc_path f))
               \<and> get_prop (node_data fileNode) ''raw'' = Some (JStr (fc_content f)))"
    if c: "getContext g [] ?o = Inr c" for c
  proof -
    have n: "ctx_nodes c = overview_quota g 50"
      using getContext_overview_nodes[OF overview_query_empty c] o(1) ov by simp
    have "files_loop g 2 5000 True (prioritizeNodesByRelevance (overview_quota g 50)) [] {}
        = Inr (filesWithContent c)"
      using getContext_overview_files[OF overview_query_empty c] o ov by simp
    then have l: "files_loop g 2 5000 True (ctx_nodes c) [] {} = Inr (filesWithContent c)"
      unfolding prioritize_overview n .
    have a: "let sample = take 16 (findNodesByType g ''file'') @ take 16 (findNodesByType g ''function'')
                          @ take 16 (findNodesByType g ''class'')
             in ctx_nodes c = sample @ take (50 - length sample) (findNodesByType g ''export'')"
      unfolding n overview_quota_50 Let_def ..
    have "int (length (filesWithContent c)) \<le> max (int (length ([] :: file_content list)) + 1) 2"
      using l by (rule files_loop_length)
    then have b: "length (filesWithContent c) \<le> 2" by simp
    have d: "\<forall>all. files_in_order g 5000 True (ctx_nodes c) = Inr all \<longrightarrow>
                 filesWithContent c = take 2 all"
      using files_in_order_take l by fastforce
    have "getFilesWithContent g (ctx_nodes c) 2 5000 True = Inr (filesWithContent c)"
      unfolding getFilesWithContent_loop n prioritize_overview using l n by simp
    from files_budget[OF this]
    have e: "\<forall>f \<in> set (filesWithContent c). \<exists>fileNode.
                 fileNode \<in> set (map snd (nodes g)) \<and> node_type fileNode = ''file''
               \<and> get_prop (node_data fileNode) ''path'' = Some (JStr (fc_path f))
               \<and> get_prop (node_data fileNode) ''raw'' = Some (JStr (fc_content f))"
      by fastforce
    show ?thesis using a b l d e by blast
  qed
  show ?thesis using 1 2 by blast
qed

lemma graph_ok_three_files: "graph_ok three_files_graph"
  unfolding three_files_graph_def
  by (intro graph_ok_with_node graph_ok_with_edge graph_ok_empty)

lemma typed_three_files: "typed_graph three_files_graph"
  by code_simp

lemma three_files_context:
  "context_node_ids (getContext three_files_graph [] (default_options\<lparr>opt_maxFiles := 2\<rparr>))
     = Inr [''node_1'', ''node_2'', ''node_3'', ''node_4'']"
  "file_paths (getContext three_files_graph [] (default_options\<lparr>opt_maxFiles := 2\<rparr>))
     = Inr [''x.js'', ''y.js'']"
  by code_simp+

theorem overview_two_files_witness:
  "\<exists>c. getContext three_files_graph [] (default_options\<lparr>opt_maxFiles := 2\<rparr>) = Inr c
     \<and> map node_id (ctx_nodes c) = [''node_1'', ''node_2'', ''node_3'', ''node_4'']
     \<and> map fc_path (filesWithContent c) = [''x.js'', ''y.js'']
     \<and> length (filesWithContent c) \<le> 2"
proof -
  let ?o = "default_options\<lparr>opt_maxFiles := 2\<rparr>"
  note t = overview_two_files[OF graph_ok_three_files]
  have "\<exists>c. getContext three_files_graph [] ?o = Inr c"
    using t typed_three_files by blast
  then obtain c where c: "getContext three_files_graph [] ?o = Inr c" by blast
  have l: "length (filesWithContent c) \<le> 2" using t c by blast
  have n: "map node_id (ctx_nodes c) = [''node_1'', ''node_2'', ''node_3'', ''node_4'']"
    using three_files_context(1) unfolding c by (simp add: context_node_ids_def)
  have p: "map fc_path (filesWithContent c) = [''x.js'', ''y.js'']"
    using three_files_context(2) unfolding c by (simp add: file_paths_def)
  show ?thesis
    by (rule exI[of _ c]) (intro conjI c n p l)
qed





end
